theory Spec2Isabelle
  imports Main
begin

section \<open>Values: dates, timestamps, worksheet cells, exceptions\<close>

text \<open>
  A \<^verbatim>\<open>datetime.date\<close> is its proleptic Gregorian ordinal (what \<^verbatim>\<open>date.toordinal()\<close>
  returns), so that the difference of two dates is the \<^verbatim>\<open>days\<close> field of the
  \<^verbatim>\<open>timedelta\<close> Python computes. A naive \<^verbatim>\<open>datetime.datetime\<close> is a date together with
  the microseconds elapsed since midnight (from 0 up to, not including, 86400000000).
\<close>

type_synonym date = int

datatype datetime = DateTime (dt_date: date) (dt_usec: int)

definition us_per_day :: int where
  "us_per_day = 86400000000"

definition to_us :: "datetime \<Rightarrow> int" where
  "to_us t = dt_date t * us_per_day + dt_usec t"

text \<open>\<^verbatim>\<open>(a - b).days\<close> for two timestamps: a \<^verbatim>\<open>timedelta\<close> is normalised so that its
  \<^verbatim>\<open>days\<close> field is the floor of the difference in days.\<close>

definition timedelta_days :: "datetime \<Rightarrow> datetime \<Rightarrow> int" where
  "timedelta_days a b = (to_us a - to_us b) div us_per_day"

text \<open>Calendar dates, to write the examples of the specification: the ordinal of
  year/month/day as Python's \<^verbatim>\<open>date(y, m, d).toordinal()\<close> computes it.\<close>

definition is_leap :: "int \<Rightarrow> bool" where
  "is_leap y \<longleftrightarrow> y mod 4 = 0 \<and> (y mod 100 \<noteq> 0 \<or> y mod 400 = 0)"

definition days_before_year :: "int \<Rightarrow> int" where
  "days_before_year y = (y - 1) * 365 + (y - 1) div 4 - (y - 1) div 100 + (y - 1) div 400"

definition days_in_month :: "int \<Rightarrow> nat \<Rightarrow> int" where
  "days_in_month y m =
     (if m = 2 \<and> is_leap y then 29
      else [31, 28, 31, 30, 31, 30, 31, 31, 30, 31, 30, 31] ! (m - 1))"

definition days_before_month :: "int \<Rightarrow> nat \<Rightarrow> int" where
  "days_before_month y m = sum_list (map (days_in_month y) [1..<m])"

definition ymd :: "int \<Rightarrow> nat \<Rightarrow> int \<Rightarrow> date" where
  "ymd y m d = days_before_year y + days_before_month y m + d"

text \<open>The value of a worksheet cell as openpyxl hands it to Python: empty, text, a
  number, a date or a timestamp.\<close>

datatype cell = VNone | VStr string | VInt int | VDate date | VDateTime datetime

text \<open>The exceptions the modelled statements can raise.\<close>

datatype exn = ValueError | TypeError | AttributeError | IndexError

text \<open>Truthiness of a cell value in \<^verbatim>\<open>if aftaletype or ...\<close>.\<close>

fun truthy :: "cell \<Rightarrow> bool" where
  "truthy VNone = False"
| "truthy (VStr s) = (s \<noteq> [])"
| "truthy (VInt n) = (n \<noteq> 0)"
| "truthy (VDate d) = True"
| "truthy (VDateTime t) = True"

text \<open>\<^verbatim>\<open>columns.index(name)\<close>: the position of the first equal element, \<^verbatim>\<open>ValueError\<close>
  (here \<open>None\<close>) when there is none.\<close>

fun index_of :: "'a \<Rightarrow> 'a list \<Rightarrow> nat option" where
  "index_of x [] = None"
| "index_of x (y # ys) =
     (if y = x then Some 0
      else (case index_of x ys of None \<Rightarrow> None | Some i \<Rightarrow> Some (Suc i)))"

text \<open>The column names with a letter outside ASCII, as code points.\<close>

definition Beloeb :: string where
  "Beloeb = ''Bel'' @ [CHR 0xF8] @ ''b''"

definition Adresseaendringsdato :: string where
  "Adresseaendringsdato = ''Adresse'' @ [CHR 0xE6] @ ''ndringsdato''"

section \<open>The address history lookup\<close>

text \<open>
  One row of \<^verbatim>\<open>DWH.MART.AdresseHistorik\<close> as the query selects it, and the cursor after
  \<^verbatim>\<open>cursor.execute(query, cpr)\<close>: the rows \<^verbatim>\<open>fetchall()\<close> returns, newest first, and
  the \<^verbatim>\<open>rowcount\<close> attribute the driver reports. The database is the function from the
  query parameter to that cursor state.
\<close>

record hist_row =
  DatoFra :: date
  Adressenoegle :: string

record cursor =
  rowcount :: int
  fetchall :: "hist_row list"

type_synonym database = "cell \<Rightarrow> cursor"

text \<open>pyodbc documents \<^verbatim>\<open>rowcount\<close> as the number of rows, or -1 when the driver does
  not know it (usual right after a SELECT).\<close>

definition rowcount_sound :: "cursor \<Rightarrow> bool" where
  "rowcount_sound c \<longleftrightarrow> rowcount c = - 1 \<or> rowcount c = int (length (fetchall c))"

text \<open>The \<^verbatim>\<open>for row in rows\<close> loop of \<^verbatim>\<open>look_up_address_change\<close>: \<^verbatim>\<open>date_from\<close> follows
  the rows while their key is \<^verbatim>\<open>address_key\<close>; the first other key breaks.\<close>

fun walk_rows :: "string \<Rightarrow> date \<Rightarrow> hist_row list \<Rightarrow> date" where
  "walk_rows address_key date_from [] = date_from"
| "walk_rows address_key date_from (row # rows) =
     (if Adressenoegle row = address_key then walk_rows address_key (DatoFra row) rows
      else date_from)"

definition look_up_address_change :: "database \<Rightarrow> cell \<Rightarrow> exn + date option" where
  "look_up_address_change db cpr =
     (let c = db cpr in
      if rowcount c = 0 then Inr None
      else (case fetchall c of
              [] \<Rightarrow> Inl IndexError
            | r0 # _ \<Rightarrow> Inr (Some (walk_rows (Adressenoegle r0) (DatoFra r0) (fetchall c)))))"

section \<open>The worksheet\<close>

text \<open>
  The active worksheet of the openpyxl workbook is the list of its rows, row 1 (the
  header) first; a row is the list of its cell values, column 1 first. A cell that is
  not there reads as empty. \<^verbatim>\<open>ws.max_row\<close> and \<^verbatim>\<open>ws.max_column\<close> are the extent of the
  sheet (1 for a sheet without cells). Column widths and number formats are layout, and
  are left out.

  Handing out a cell that is not there creates it, empty. For row 1 this is written
  out (\<open>create_row_cells\<close>): every function reads \<^verbatim>\<open>ws[1]\<close> first, which makes the
  header as wide as the sheet, so that the sheet keeps its width when a wider data row
  is deleted. The empty cells that reading a data row or a data cell creates lie
  inside the extent of the sheet and under that header: they change no value, no
  \<^verbatim>\<open>max_row\<close> and no \<^verbatim>\<open>max_column\<close>, and a data row stays the list of the cells it holds.
\<close>

type_synonym worksheet = "cell list list"

definition max_row :: "worksheet \<Rightarrow> nat" where
  "max_row ws = max 1 (length ws)"

definition max_column :: "worksheet \<Rightarrow> nat" where
  "max_column ws = foldr max (map length ws) 1"

text \<open>The value in a row at a position counted from 0, empty beyond the row's end.\<close>

definition field :: "cell list \<Rightarrow> nat \<Rightarrow> cell" where
  "field row i = (if i < length row then row ! i else VNone)"

text \<open>\<^verbatim>\<open>ws.cell(r, c).value\<close>, rows and columns counted from 1.\<close>

definition cell_value :: "worksheet \<Rightarrow> nat \<Rightarrow> nat \<Rightarrow> cell" where
  "cell_value ws r c =
     (if 1 \<le> r \<and> r \<le> length ws \<and> 1 \<le> c then field (ws ! (r - 1)) (c - 1) else VNone)"

text \<open>\<^verbatim>\<open>[c.value for c in ws[r]]\<close>: the cells of row \<open>r\<close> in columns 1 to
  \<^verbatim>\<open>max_column\<close>.\<close>

definition row_tuple :: "worksheet \<Rightarrow> nat \<Rightarrow> cell list" where
  "row_tuple ws r = map (cell_value ws r) [1..<Suc (max_column ws)]"

text \<open>The worksheet after \<^verbatim>\<open>ws[r]\<close> has been read: row \<open>r\<close> holds a cell in every column
  from 1 to \<^verbatim>\<open>max_column\<close>, the new ones empty.\<close>

definition create_row_cells :: "worksheet \<Rightarrow> nat \<Rightarrow> worksheet" where
  "create_row_cells ws r =
     (let ws' = ws @ replicate (r - length ws) []
      in ws'[r - 1 := ws' ! (r - 1) @ replicate (max_column ws - length (ws' ! (r - 1))) VNone])"

text \<open>\<^verbatim>\<open>row[i]\<close> on a tuple with an index that is not negative.\<close>

definition tuple_get :: "'a list \<Rightarrow> nat \<Rightarrow> exn + 'a" where
  "tuple_get t i = (if i < length t then Inr (t ! i) else Inl IndexError)"

definition pad :: "cell list \<Rightarrow> nat \<Rightarrow> cell list" where
  "pad row n = row @ replicate (n - length row) VNone"

definition set_in_row :: "cell list \<Rightarrow> nat \<Rightarrow> cell \<Rightarrow> cell list" where
  "set_in_row row c v = (pad row c)[c - 1 := v]"

text \<open>\<^verbatim>\<open>ws.cell(row=r, column=c, value=v)\<close>: the sheet grows to hold the cell.\<close>

definition set_cell :: "worksheet \<Rightarrow> nat \<Rightarrow> nat \<Rightarrow> cell \<Rightarrow> worksheet" where
  "set_cell ws r c v =
     (let ws' = ws @ replicate (r - length ws) []
      in ws'[r - 1 := set_in_row (ws' ! (r - 1)) c v])"

text \<open>\<^verbatim>\<open>ws.delete_rows(r)\<close>: row \<open>r\<close> goes, the rows below it move up by one.\<close>

definition delete_rows :: "worksheet \<Rightarrow> nat \<Rightarrow> worksheet" where
  "delete_rows ws r = take (r - 1) ws @ drop r ws"

section \<open>\<^verbatim>\<open>read_excel_file\<close>: the eligibility filter\<close>

text \<open>\<^verbatim>\<open>(current_date - dato).days\<close>: only a timestamp can be subtracted from a
  timestamp.\<close>

fun days_since :: "datetime \<Rightarrow> cell \<Rightarrow> exn + int" where
  "days_since current_date (VDateTime dato) = Inr (timedelta_days current_date dato)"
| "days_since current_date _ = Inl TypeError"

text \<open>The condition of the \<^verbatim>\<open>if\<close> in the loop; \<^verbatim>\<open>or\<close> evaluates its operands from the
  left and stops at the first true one.\<close>

definition delete_condition :: "cell \<Rightarrow> cell \<Rightarrow> cell \<Rightarrow> datetime \<Rightarrow> exn + bool" where
  "delete_condition aftaletype rim dato current_date =
     (if truthy aftaletype then Inr True
      else if rim = VStr ''IN'' then Inr True
      else (case days_since current_date dato of
              Inl e \<Rightarrow> Inl e
            | Inr d \<Rightarrow> Inr (d < 90)))"

text \<open>
  The loop over \<^verbatim>\<open>range(ws.max_row, 1, -1)\<close>. The clock is the sequence of values
  \<^verbatim>\<open>datetime.now()\<close> returns, call after call; \<open>k\<close> counts the calls made so far. The
  result is the exception raised (if any), the worksheet as the loop leaves it, and the
  number of clock calls.
\<close>

fun filter_loop ::
  "(nat \<Rightarrow> datetime) \<Rightarrow> nat \<Rightarrow> nat \<Rightarrow> nat \<Rightarrow> nat list \<Rightarrow> nat \<Rightarrow> worksheet
     \<Rightarrow> exn option \<times> worksheet \<times> nat" where
  "filter_loop clock aftaletype_index rim_index udbetalingsdato_index [] k ws = (None, ws, k)"
| "filter_loop clock aftaletype_index rim_index udbetalingsdato_index (row_index # rest) k ws =
     (let aftaletype = cell_value ws row_index aftaletype_index;
          rim = cell_value ws row_index rim_index;
          dato = cell_value ws row_index udbetalingsdato_index;
          current_date = clock k
      in case delete_condition aftaletype rim dato current_date of
           Inl e \<Rightarrow> (Some e, ws, Suc k)
         | Inr True \<Rightarrow>
             filter_loop clock aftaletype_index rim_index udbetalingsdato_index rest (Suc k)
               (delete_rows ws row_index)
         | Inr False \<Rightarrow>
             filter_loop clock aftaletype_index rim_index udbetalingsdato_index rest (Suc k) ws)"

text \<open>\<^verbatim>\<open>read_excel_file\<close> from the loaded worksheet on: the read of \<^verbatim>\<open>ws[1]\<close>, the five
  column lookups, each a \<^verbatim>\<open>ValueError\<close> when the name is not in row 1, then the loop.\<close>

definition read_excel_file ::
  "(nat \<Rightarrow> datetime) \<Rightarrow> worksheet \<Rightarrow> exn option \<times> worksheet \<times> nat" where
  "read_excel_file clock ws =
     (let columns = row_tuple ws 1;
          ws0 = create_row_cells ws 1
      in
      case index_of (VStr ''CPR'') columns of
        None \<Rightarrow> (Some ValueError, ws0, 0)
      | Some _ \<Rightarrow>
      (case index_of (VStr Beloeb) columns of
        None \<Rightarrow> (Some ValueError, ws0, 0)
      | Some _ \<Rightarrow>
      (case index_of (VStr ''Udbetalingsdato'') columns of
        None \<Rightarrow> (Some ValueError, ws0, 0)
      | Some u \<Rightarrow>
      (case index_of (VStr ''Aftale type'') columns of
        None \<Rightarrow> (Some ValueError, ws0, 0)
      | Some a \<Rightarrow>
      (case index_of (VStr ''RIM aftaletype'') columns of
        None \<Rightarrow> (Some ValueError, ws0, 0)
      | Some r \<Rightarrow>
          filter_loop clock (a + 1) (r + 1) (u + 1) (rev [2..<Suc (max_row ws0)]) 0 ws0)))))"

section \<open>\<^verbatim>\<open>get_address_changes\<close>: the enrichment\<close>

text \<open>The loop over \<^verbatim>\<open>range(2, ws.max_row+1)\<close>; a date object is always true in
  \<^verbatim>\<open>if date\<close>, \<^verbatim>\<open>None\<close> is not.\<close>

fun address_loop ::
  "database \<Rightarrow> nat \<Rightarrow> nat \<Rightarrow> nat list \<Rightarrow> worksheet \<Rightarrow> exn option \<times> worksheet" where
  "address_loop db cpr_index aendringsdato_index [] ws = (None, ws)"
| "address_loop db cpr_index aendringsdato_index (row_index # rest) ws =
     (let cpr = cell_value ws row_index cpr_index in
      case look_up_address_change db cpr of
        Inl e \<Rightarrow> (Some e, ws)
      | Inr None \<Rightarrow> address_loop db cpr_index aendringsdato_index rest ws
      | Inr (Some date) \<Rightarrow>
          address_loop db cpr_index aendringsdato_index rest
            (set_cell ws row_index aendringsdato_index (VDate date)))"

definition get_address_changes :: "database \<Rightarrow> worksheet \<Rightarrow> exn option \<times> worksheet" where
  "get_address_changes db ws =
     (let columns = row_tuple ws 1;
          ws0 = create_row_cells ws 1;
          aendringsdato_index = length columns + 1;
          ws1 = set_cell ws0 1 aendringsdato_index (VStr Adresseaendringsdato)
      in case index_of (VStr ''CPR'') columns of
           None \<Rightarrow> (Some ValueError, ws1)
         | Some c \<Rightarrow> address_loop db (c + 1) aendringsdato_index [2..<max_row ws1 + 1] ws1)"

section \<open>\<^verbatim>\<open>calculate_difference\<close>: the correlation\<close>

text \<open>\<^verbatim>\<open>value.date()\<close>: only a timestamp has the method.\<close>

fun date_of :: "cell \<Rightarrow> exn + date" where
  "date_of (VDateTime t) = Inr (dt_date t)"
| "date_of _ = Inl AttributeError"

text \<open>\<^verbatim>\<open>(value - d).days\<close> for a date \<open>d\<close>: only a date (that is not a timestamp) can
  stand on the left.\<close>

fun minus_date :: "cell \<Rightarrow> date \<Rightarrow> exn + int" where
  "minus_date (VDate a) d = Inr (a - d)"
| "minus_date _ d = Inl TypeError"

text \<open>\<^verbatim>\<open>row[aendringsdato_index].value - row[udbetalingsdato_index].value.date()\<close>, the
  left operand first.\<close>

definition row_diff :: "cell list \<Rightarrow> nat \<Rightarrow> nat \<Rightarrow> exn + int" where
  "row_diff row aendringsdato_index udbetalingsdato_index =
     (case tuple_get row aendringsdato_index of
        Inl e \<Rightarrow> Inl e
      | Inr a \<Rightarrow>
      (case tuple_get row udbetalingsdato_index of
        Inl e \<Rightarrow> Inl e
      | Inr u \<Rightarrow>
      (case date_of u of
        Inl e \<Rightarrow> Inl e
      | Inr d \<Rightarrow> minus_date a d)))"

fun difference_loop ::
  "nat \<Rightarrow> nat \<Rightarrow> nat \<Rightarrow> nat list \<Rightarrow> worksheet \<Rightarrow> exn option \<times> worksheet" where
  "difference_loop udbetalingsdato_index aendringsdato_index difference_index [] ws = (None, ws)"
| "difference_loop udbetalingsdato_index aendringsdato_index difference_index (row_index # rest) ws =
     (let row = row_tuple ws row_index in
      case row_diff row aendringsdato_index udbetalingsdato_index of
        Inl e \<Rightarrow> (Some e, ws)
      | Inr days \<Rightarrow>
          if days < 89
          then difference_loop udbetalingsdato_index aendringsdato_index difference_index rest
                 (delete_rows ws row_index)
          else difference_loop udbetalingsdato_index aendringsdato_index difference_index rest
                 (set_cell ws row_index difference_index (VInt days)))"

definition calculate_difference :: "worksheet \<Rightarrow> exn option \<times> worksheet" where
  "calculate_difference ws =
     (let columns = row_tuple ws 1;
          ws0 = create_row_cells ws 1;
          difference_index = length columns + 1;
          ws1 = set_cell ws0 1 difference_index (VStr ''Difference'')
      in case index_of (VStr ''Udbetalingsdato'') columns of
           None \<Rightarrow> (Some ValueError, ws1)
         | Some u \<Rightarrow>
         (case index_of (VStr Adresseaendringsdato) columns of
           None \<Rightarrow> (Some ValueError, ws1)
         | Some a \<Rightarrow> difference_loop u a difference_index (rev [2..<Suc (max_row ws1)]) ws1))"

section \<open>\<^verbatim>\<open>process\<close>: the three steps in sequence\<close>

text \<open>From the loaded worksheet to the worksheet that is mailed; an exception ends the
  run at the step that raises it.\<close>

definition process ::
  "(nat \<Rightarrow> datetime) \<Rightarrow> database \<Rightarrow> worksheet \<Rightarrow> exn option \<times> worksheet" where
  "process clock db ws =
     (case read_excel_file clock ws of
        (Some e, ws1, _) \<Rightarrow> (Some e, ws1)
      | (None, ws1, _) \<Rightarrow>
      (case get_address_changes db ws1 of
        (Some e, ws2) \<Rightarrow> (Some e, ws2)
      | (None, ws2) \<Rightarrow> calculate_difference ws2))"

section \<open>What the loops do to one row\<close>

text \<open>
  The decisions of the loops, read off a row of the sheet (positions counted from 0):
  \<open>row_decision\<close> is the \<^verbatim>\<open>if\<close> of \<^verbatim>\<open>read_excel_file\<close> on the three cells of a row,
  \<open>row_days\<close> the subtraction of \<^verbatim>\<open>calculate_difference\<close> on its two cells.
\<close>

definition row_decision :: "nat \<Rightarrow> nat \<Rightarrow> nat \<Rightarrow> datetime \<Rightarrow> cell list \<Rightarrow> exn + bool" where
  "row_decision a r u now row = delete_condition (field row a) (field row r) (field row u) now"

definition row_days :: "nat \<Rightarrow> nat \<Rightarrow> cell list \<Rightarrow> exn + int" where
  "row_days a u row =
     (case date_of (field row u) of Inl e \<Rightarrow> Inl e | Inr d \<Rightarrow> minus_date (field row a) d)"

definition the_days :: "nat \<Rightarrow> nat \<Rightarrow> cell list \<Rightarrow> int" where
  "the_days a u row = (case row_days a u row of Inl e \<Rightarrow> 0 | Inr d \<Rightarrow> d)"

fun is_datetime :: "cell \<Rightarrow> bool" where
  "is_datetime (VDateTime t) = True"
| "is_datetime _ = False"

fun is_text :: "cell \<Rightarrow> bool" where
  "is_text VNone = True"
| "is_text (VStr s) = True"
| "is_text _ = False"

text \<open>A row on which the \<^verbatim>\<open>if\<close> of \<^verbatim>\<open>read_excel_file\<close> raises nothing: an earlier operand
  of the \<^verbatim>\<open>or\<close> is true, or the date cell holds a timestamp.\<close>

definition decidable_row :: "nat \<Rightarrow> nat \<Rightarrow> nat \<Rightarrow> cell list \<Rightarrow> bool" where
  "decidable_row a r u row \<longleftrightarrow>
     truthy (field row a) \<or> field row r = VStr ''IN'' \<or> is_datetime (field row u)"

text \<open>The rows \<^verbatim>\<open>read_excel_file\<close> leaves, given in the order the loop visits them (last
  row first); the row visited at the \<open>k\<close>-th step is judged against the \<open>k\<close>-th clock
  value.\<close>

fun kept :: "(nat \<Rightarrow> datetime) \<Rightarrow> nat \<Rightarrow> nat \<Rightarrow> nat \<Rightarrow> nat \<Rightarrow> cell list list \<Rightarrow> cell list list" where
  "kept clock a r u k [] = []"
| "kept clock a r u k (row # rows) =
     (if row_decision a r u (clock k) row = Inr False then [row] else [])
     @ kept clock a r u (Suc k) rows"

text \<open>The rows \<^verbatim>\<open>calculate_difference\<close> leaves, each with its difference written into
  column \<open>di\<close>.\<close>

definition annotated :: "nat \<Rightarrow> nat \<Rightarrow> nat \<Rightarrow> cell list list \<Rightarrow> cell list list" where
  "annotated a u di rows =
     concat (map (\<lambda>row. case row_days a u row of
                          Inl e \<Rightarrow> []
                        | Inr d \<Rightarrow> if d < 89 then [] else [set_in_row row di (VInt d)]) rows)"

section \<open>The specification's words\<close>

text \<open>
  A row typed as the specification's data model has it: \<^verbatim>\<open>agreementType\<close> a nullable
  string, \<^verbatim>\<open>disbursementDate\<close> a timestamp. The three disqualifying predicates of the
  Row Filter: \<^verbatim>\<open>agreementType\<close> neither null nor empty, \<^verbatim>\<open>specialAgreementType\<close> equal to
  \<^verbatim>\<open>"IN"\<close>, \<^verbatim>\<open>now - disbursementDate\<close> strictly less than 90 days.
\<close>

definition typed_row :: "nat \<Rightarrow> nat \<Rightarrow> cell list \<Rightarrow> bool" where
  "typed_row a u row \<longleftrightarrow> is_text (field row a) \<and> is_datetime (field row u)"

definition disqualified :: "nat \<Rightarrow> nat \<Rightarrow> nat \<Rightarrow> datetime \<Rightarrow> cell list \<Rightarrow> bool" where
  "disqualified a r u now row \<longleftrightarrow>
     (field row a \<noteq> VNone \<and> field row a \<noteq> VStr [])
     \<or> field row r = VStr ''IN''
     \<or> (case field row u of
           VDateTime d \<Rightarrow> to_us now - to_us d < 90 * us_per_day
         | _ \<Rightarrow> False)"

text \<open>A row with an address change date and a disbursement timestamp, and its day
  difference: \<^verbatim>\<open>addressChangeDate - disbursementDate.date()\<close> in whole days.\<close>

fun is_date :: "cell \<Rightarrow> bool" where
  "is_date (VDate d) = True"
| "is_date _ = False"

definition dated_row :: "nat \<Rightarrow> nat \<Rightarrow> cell list \<Rightarrow> bool" where
  "dated_row a u row \<longleftrightarrow> is_date (field row a) \<and> is_datetime (field row u)"

definition day_difference :: "nat \<Rightarrow> nat \<Rightarrow> cell list \<Rightarrow> int" where
  "day_difference a u row =
     (case (field row a, field row u) of
        (VDate ad, VDateTime ud) \<Rightarrow> ad - dt_date ud
      | _ \<Rightarrow> 0)"

text \<open>A row of the report: its day difference (at position \<open>di\<close>) is set, is the
  address change date minus the date of the disbursement timestamp, and is at least 89.\<close>

definition difference_recorded :: "nat \<Rightarrow> nat \<Rightarrow> nat \<Rightarrow> cell list \<Rightarrow> bool" where
  "difference_recorded a u di row \<longleftrightarrow>
     (case (field row a, field row u) of
        (VDate ad, VDateTime ud) \<Rightarrow>
          field row di = VInt (ad - dt_date ud) \<and> 89 \<le> ad - dt_date ud
      | _ \<Rightarrow> False)"

section \<open>Example data\<close>

text \<open>A header with the five required columns, a data row under it, and a clock that
  passes midnight between its first and its second reading.\<close>

definition sample_header :: "cell list" where
  "sample_header =
     [VStr ''CPR'', VStr Beloeb, VStr ''Udbetalingsdato'', VStr ''Aftale type'',
      VStr ''RIM aftaletype'']"

definition sample_row :: "string \<Rightarrow> datetime \<Rightarrow> cell \<Rightarrow> cell \<Rightarrow> cell list" where
  "sample_row cpr dato aftaletype rim = [VStr cpr, VInt 1000, VDateTime dato, aftaletype, rim]"

definition ticking_clock :: "nat \<Rightarrow> datetime" where
  "ticking_clock k =
     (if k = 0 then DateTime (ymd 2024 3 30) 86399999999 else DateTime (ymd 2024 3 31) 0)"

text \<open>The same with the address change date in a sixth column, as
  \<^verbatim>\<open>get_address_changes\<close> leaves the sheet.\<close>

definition sample_header_dated :: "cell list" where
  "sample_header_dated = sample_header @ [VStr Adresseaendringsdato]"

definition sample_row_dated :: "string \<Rightarrow> datetime \<Rightarrow> date \<Rightarrow> cell list" where
  "sample_row_dated cpr dato aendringsdato = sample_row cpr dato VNone VNone @ [VDate aendringsdato]"

text \<open>A database with an address history for every person: \<^verbatim>\<open>P1\<close> moved in on
  2024-05-01, everybody else on 2024-01-20.\<close>

definition sample_database :: database where
  "sample_database cpr =
     (if cpr = VStr ''P1''
      then \<lparr>rowcount = - 1, fetchall =
             [\<lparr>DatoFra = ymd 2024 5 1, Adressenoegle = ''A''\<rparr>,
              \<lparr>DatoFra = ymd 2023 6 1, Adressenoegle = ''B''\<rparr>]\<rparr>
      else \<lparr>rowcount = - 1, fetchall =
             [\<lparr>DatoFra = ymd 2024 1 20, Adressenoegle = ''C''\<rparr>]\<rparr>)"

section \<open>Lists, cells and rows\<close>

lemma index_of_None: "index_of x xs = None \<longleftrightarrow> x \<notin> set xs"
  by (induction xs) (auto split: option.splits)

lemma index_of_Some: "index_of x xs = Some i \<Longrightarrow> i < length xs \<and> xs ! i = x"
  by (induction xs arbitrary: i) (auto split: option.splits if_splits)

lemma length_le_max_column: "row \<in> set ws \<Longrightarrow> length row \<le> max_column ws"
  by (induction ws) (auto simp: max_column_def)

lemma max_column_bound: "(\<forall>row\<in>set ws. length row \<le> n) \<Longrightarrow> 1 \<le> n \<Longrightarrow> max_column ws \<le> n"
  by (induction ws) (auto simp: max_column_def)

lemma max_column_ge1: "1 \<le> max_column ws"
  by (induction ws) (auto simp: max_column_def)

lemma length_row_tuple: "length (row_tuple ws r) = max_column ws"
  by (simp add: row_tuple_def)

lemma nth_row_tuple: "i < max_column ws \<Longrightarrow> row_tuple ws r ! i = cell_value ws r (Suc i)"
  unfolding row_tuple_def by (simp add: nth_map_upt del: upt_Suc)

lemma tuple_get_row_tuple:
  "i < max_column ws \<Longrightarrow> tuple_get (row_tuple ws r) i = Inr (cell_value ws r (Suc i))"
  by (simp add: tuple_get_def length_row_tuple nth_row_tuple)

lemma cell_value_mid:
  "cell_value (pre @ x # suf) (Suc (length pre)) (Suc c) = field x c"
  by (simp add: cell_value_def)

lemma delete_rows_mid: "delete_rows (pre @ x # suf) (Suc (length pre)) = pre @ suf"
  by (simp add: delete_rows_def)

lemma set_cell_mid:
  "set_cell (pre @ x # suf) (Suc (length pre)) c v = pre @ set_in_row x c v # suf"
  by (simp add: set_cell_def)

lemma rev_range_snoc:
  "rev [2..<Suc (Suc (length (rs @ [x])))] = Suc (Suc (length rs)) # rev [2..<Suc (Suc (length rs))]"
  by simp

lemma field_set_in_row:
  "1 \<le> c \<Longrightarrow> field (set_in_row row c v) i = (if i = c - 1 then v else field row i)"
  by (auto simp: field_def set_in_row_def pad_def nth_append nth_list_update)

lemma row_tuple_1: "row_tuple (h # rows) 1 = pad h (max_column (h # rows))"
  apply (rule nth_equalityI)
  using length_le_max_column[of h "h # rows"]
   apply (simp add: length_row_tuple pad_def)
  apply (simp add: length_row_tuple nth_row_tuple cell_value_def field_def pad_def nth_append)
  done

lemma decidable_row_decision:
  "decidable_row a r u row \<Longrightarrow> \<exists>b. row_decision a r u now row = Inr b"
  by (cases "field row u") (auto simp: decidable_row_def row_decision_def delete_condition_def)

lemma filter_loop_sweep:
  assumes "\<forall>row\<in>set rows. decidable_row a r u row"
  shows "filter_loop clock (Suc a) (Suc r) (Suc u) (rev [2..<Suc (Suc (length rows))]) k
           ((h # rows) @ suf)
         = (None, h # rev (kept clock a r u k (rev rows)) @ suf, k + length rows)"
  using assms
proof (induction rows arbitrary: k suf rule: rev_induct)
  case Nil
  show ?case by simp
next
  case (snoc x rs)
  have dec: "decidable_row a r u x" and rest: "\<forall>row\<in>set rs. decidable_row a r u row"
    using snoc.prems by auto
  obtain b where b: "row_decision a r u (clock k) x = Inr b"
    using decidable_row_decision [OF dec] by blast
  have idx: "rev [2..<Suc (Suc (length (rs @ [x])))]
               = Suc (length (h # rs)) # rev [2..<Suc (Suc (length rs))]"
    by simp
  have sheet: "(h # rs @ [x]) @ suf = (h # rs) @ x # suf"
    by simp
  have cond: "delete_condition
                (cell_value ((h # rs) @ x # suf) (Suc (length (h # rs))) (Suc a))
                (cell_value ((h # rs) @ x # suf) (Suc (length (h # rs))) (Suc r))
                (cell_value ((h # rs) @ x # suf) (Suc (length (h # rs))) (Suc u))
                (clock k) = Inr b"
    using b unfolding cell_value_mid row_decision_def .
  show ?case
  proof (cases b)
    case True
    have "filter_loop clock (Suc a) (Suc r) (Suc u) (rev [2..<Suc (Suc (length (rs @ [x])))]) k
            ((h # rs @ [x]) @ suf)
          = filter_loop clock (Suc a) (Suc r) (Suc u) (rev [2..<Suc (Suc (length rs))]) (Suc k)
              ((h # rs) @ suf)"
      unfolding idx sheet filter_loop.simps Let_def cond
      using True by (simp only: delete_rows_mid sum.case bool.case)
    then show ?thesis
      using snoc.IH [OF rest, of "Suc k" suf] b True by simp
  next
    case False
    have "filter_loop clock (Suc a) (Suc r) (Suc u) (rev [2..<Suc (Suc (length (rs @ [x])))]) k
            ((h # rs @ [x]) @ suf)
          = filter_loop clock (Suc a) (Suc r) (Suc u) (rev [2..<Suc (Suc (length rs))]) (Suc k)
              ((h # rs) @ x # suf)"
      unfolding idx sheet filter_loop.simps Let_def cond
      using False by (simp only: sum.case bool.case)
    then show ?thesis
      using snoc.IH [OF rest, of "Suc k" "x # suf"] b False by simp
  qed
qed

lemma row_diff_mid:
  assumes "a < max_column (pre @ x # suf)" and "u < max_column (pre @ x # suf)"
  shows "row_diff (row_tuple (pre @ x # suf) (Suc (length pre))) a u = row_days a u x"
  using assms
  by (simp add: row_diff_def row_days_def tuple_get_row_tuple cell_value_mid)

lemma annotated_snoc:
  "annotated a u di (rs @ [x]) =
     annotated a u di rs @
       (case row_days a u x of
          Inl e \<Rightarrow> []
        | Inr d \<Rightarrow> if d < 89 then [] else [set_in_row x di (VInt d)])"
  by (simp add: annotated_def)

lemma difference_loop_sweep:
  assumes "\<forall>row\<in>set rows. \<exists>d. row_days a u row = Inr d"
    and "a < length h" and "u < length h"
  shows "difference_loop u a di (rev [2..<Suc (Suc (length rows))]) ((h # rows) @ suf)
         = (None, h # annotated a u di rows @ suf)"
  using assms(1)
proof (induction rows arbitrary: suf rule: rev_induct)
  case Nil
  show ?case by (simp add: annotated_def)
next
  case (snoc x rs)
  have rest: "\<forall>row\<in>set rs. \<exists>d. row_days a u row = Inr d"
    using snoc.prems by auto
  obtain d where d: "row_days a u x = Inr d"
    using snoc.prems by auto
  have idx: "rev [2..<Suc (Suc (length (rs @ [x])))]
               = Suc (length (h # rs)) # rev [2..<Suc (Suc (length rs))]"
    by simp
  have sheet: "(h # rs @ [x]) @ suf = (h # rs) @ x # suf"
    by simp
  have "length h \<le> max_column ((h # rs) @ x # suf)"
    by (rule length_le_max_column) simp
  then have "a < max_column ((h # rs) @ x # suf)" "u < max_column ((h # rs) @ x # suf)"
    using assms(2,3) by auto
  then have diff: "row_diff (row_tuple ((h # rs) @ x # suf) (Suc (length (h # rs)))) a u = Inr d"
    using row_diff_mid [of a "h # rs" x suf u] d by simp
  show ?case
  proof (cases "d < 89")
    case True
    have "difference_loop u a di (rev [2..<Suc (Suc (length (rs @ [x])))]) ((h # rs @ [x]) @ suf)
          = difference_loop u a di (rev [2..<Suc (Suc (length rs))]) ((h # rs) @ suf)"
      unfolding idx sheet difference_loop.simps Let_def diff
      using True by (simp only: delete_rows_mid sum.case if_True)
    then show ?thesis
      using snoc.IH [OF rest, of suf] d True by (simp add: annotated_snoc)
  next
    case False
    have "difference_loop u a di (rev [2..<Suc (Suc (length (rs @ [x])))]) ((h # rs @ [x]) @ suf)
          = difference_loop u a di (rev [2..<Suc (Suc (length rs))])
              ((h # rs) @ set_in_row x di (VInt d) # suf)"
      unfolding idx sheet difference_loop.simps Let_def diff
      using False by (simp only: set_cell_mid sum.case if_False)
    then show ?thesis
      using snoc.IH [OF rest, of "set_in_row x di (VInt d) # suf"] d False
      by (simp add: annotated_snoc)
  qed
qed

lemma set_cell_header:
  "set_cell (h # rows) 1 c v = set_in_row h c v # rows"
  by (simp add: set_cell_def)

lemma set_in_row_append:
  "length row \<le> n \<Longrightarrow> set_in_row row (Suc n) v = pad row n @ [v]"
proof -
  assume le: "length row \<le> n"
  have "Suc n - length row = Suc (n - length row)"
    using le by simp
  then have "pad row (Suc n) = pad row n @ [VNone]"
    by (simp add: pad_def replicate_append_same)
  moreover have "length (pad row n) = n"
    using le by (simp add: pad_def)
  ultimately show ?thesis
    using list_update_length [of "pad row n" VNone "[]" v]
    by (simp add: set_in_row_def)
qed

lemma max_row_Cons: "max_row (h # rows) = Suc (length rows)"
  by (simp add: max_row_def)

lemma create_row_cells_header:
  "create_row_cells (h # rows) 1 = pad h (max_column (h # rows)) # rows"
  by (simp add: create_row_cells_def pad_def)

lemma create_row_cells_empty: "create_row_cells [] 1 = [[VNone]]"
  by (simp add: create_row_cells_def max_column_def)

lemma length_pad: "length row \<le> n \<Longrightarrow> length (pad row n) = n"
  by (simp add: pad_def)

lemma pad_full: "length row = n \<Longrightarrow> pad row n = row"
  by (simp add: pad_def)

lemma field_pad: "field (pad row n) i = field row i"
  by (simp add: field_def pad_def nth_append)

lemma set_cell_create_row_cells:
  "set_cell (create_row_cells ws 1) 1 (max_column ws + 1) v = set_cell ws 1 (max_column ws + 1) v"
proof (cases ws)
  case Nil
  show ?thesis
    unfolding Nil create_row_cells_empty
    by (simp add: set_cell_def set_in_row_def pad_def max_column_def)
next
  case (Cons h rows)
  have hm: "length h \<le> max_column (h # rows)"
    by (rule length_le_max_column) simp
  have "set_in_row (pad h (max_column (h # rows))) (Suc (max_column (h # rows))) v
        = set_in_row h (Suc (max_column (h # rows))) v"
    using set_in_row_append [OF hm, of v]
      set_in_row_append [of "pad h (max_column (h # rows))" "max_column (h # rows)" v]
    by (simp add: length_pad [OF hm] pad_full)
  then show ?thesis
    unfolding Cons create_row_cells_header set_cell_header by simp
qed

lemma max_row_create_row_cells: "max_row (create_row_cells ws 1) = max_row ws"
proof (cases ws)
  case Nil
  show ?thesis
    unfolding Nil create_row_cells_empty by (simp add: max_row_def)
next
  case (Cons h rows)
  show ?thesis
    unfolding Cons create_row_cells_header by (simp add: max_row_def)
qed

lemma tl_create_row_cells: "tl (create_row_cells ws 1) = tl ws"
proof (cases ws)
  case Nil
  show ?thesis
    unfolding Nil create_row_cells_empty by simp
next
  case (Cons h rows)
  show ?thesis
    unfolding Cons create_row_cells_header by simp
qed

lemma cell_value_create_row_cells:
  "cell_value (create_row_cells ws 1) r c = cell_value ws r c"
proof (cases ws)
  case Nil
  show ?thesis
    unfolding Nil create_row_cells_empty by (auto simp: cell_value_def field_def)
next
  case (Cons h rows)
  show ?thesis
    unfolding Cons create_row_cells_header
    by (cases "r - 1") (auto simp: cell_value_def field_pad)
qed

lemma max_column_create_row_cells: "max_column (create_row_cells ws 1) = max_column ws"
proof (cases ws)
  case Nil
  show ?thesis
    unfolding Nil create_row_cells_empty by (simp add: max_column_def)
next
  case (Cons h rows)
  have hm: "length h \<le> max_column (h # rows)"
    by (rule length_le_max_column) simp
  have "max (length h) (max_column rows) = max_column (h # rows)"
    by (simp add: max_column_def)
  then show ?thesis
    unfolding Cons create_row_cells_header
    using length_pad [OF hm] by (simp add: max_column_def)
qed

lemma get_address_changes_unfold:
  "get_address_changes db ws =
     (let columns = row_tuple ws 1;
          aendringsdato_index = length columns + 1;
          ws1 = set_cell ws 1 aendringsdato_index (VStr Adresseaendringsdato)
      in case index_of (VStr ''CPR'') columns of
           None \<Rightarrow> (Some ValueError, ws1)
         | Some c \<Rightarrow> address_loop db (c + 1) aendringsdato_index [2..<max_row ws1 + 1] ws1)"
  unfolding get_address_changes_def Let_def length_row_tuple set_cell_create_row_cells
  by (rule refl)

lemma calculate_difference_unfold:
  "calculate_difference ws =
     (let columns = row_tuple ws 1;
          difference_index = length columns + 1;
          ws1 = set_cell ws 1 difference_index (VStr ''Difference'')
      in case index_of (VStr ''Udbetalingsdato'') columns of
           None \<Rightarrow> (Some ValueError, ws1)
         | Some u \<Rightarrow>
         (case index_of (VStr Adresseaendringsdato) columns of
           None \<Rightarrow> (Some ValueError, ws1)
         | Some a \<Rightarrow> difference_loop u a difference_index (rev [2..<Suc (max_row ws1)]) ws1))"
  unfolding calculate_difference_def Let_def length_row_tuple set_cell_create_row_cells
  by (rule refl)

lemma read_excel_file_sweep:
  assumes "VStr ''CPR'' \<in> set (row_tuple (h # rows) 1)"
    and "VStr Beloeb \<in> set (row_tuple (h # rows) 1)"
    and "index_of (VStr ''Udbetalingsdato'') (row_tuple (h # rows) 1) = Some u"
    and "index_of (VStr ''Aftale type'') (row_tuple (h # rows) 1) = Some a"
    and "index_of (VStr ''RIM aftaletype'') (row_tuple (h # rows) 1) = Some r"
    and "\<forall>row\<in>set rows. decidable_row a r u row"
  shows "read_excel_file clock (h # rows)
         = (None, pad h (max_column (h # rows)) # rev (kept clock a r u 0 (rev rows)),
            length rows)"
proof -
  obtain i where i: "index_of (VStr ''CPR'') (row_tuple (h # rows) 1) = Some i"
    using assms(1) index_of_None [of "VStr ''CPR''" "row_tuple (h # rows) 1"] by auto
  obtain j where j: "index_of (VStr Beloeb) (row_tuple (h # rows) 1) = Some j"
    using assms(2) index_of_None [of "VStr Beloeb" "row_tuple (h # rows) 1"] by auto
  have "read_excel_file clock (h # rows)
        = filter_loop clock (Suc a) (Suc r) (Suc u) (rev [2..<Suc (Suc (length rows))]) 0
            ((pad h (max_column (h # rows)) # rows) @ [])"
    unfolding read_excel_file_def Let_def i j assms(3,4,5) create_row_cells_header max_row_Cons
    by simp
  then show ?thesis
    using filter_loop_sweep [OF assms(6), where clock = clock
        and h = "pad h (max_column (h # rows))" and k = 0 and suf = "[]"]
    by simp
qed

lemma kept_const:
  "kept (\<lambda>_. now) a r u k rows = filter (\<lambda>row. row_decision a r u now row = Inr False) rows"
  by (induction rows arbitrary: k) auto

lemma kept_zip:
  "rev (kept clock a r u k (rev rows))
   = map fst (filter (\<lambda>(row, t). row_decision a r u (clock t) row = Inr False)
       (zip rows (rev [k..<k + length rows])))"
proof (induction rows arbitrary: k rule: rev_induct)
  case Nil
  show ?case by simp
next
  case (snoc x rs)
  have "[k..<k + length (rs @ [x])] = k # [Suc k..<Suc k + length rs]"
    by (subst upt_rec) (simp del: upt_Suc)
  then have "rev [k..<k + length (rs @ [x])] = rev [Suc k..<Suc k + length rs] @ [k]"
    by (simp only: rev.simps)
  moreover have "length rs = length (rev [Suc k..<Suc k + length rs])"
    by (simp del: upt_Suc)
  ultimately have "zip (rs @ [x]) (rev [k..<k + length (rs @ [x])])
             = zip rs (rev [Suc k..<Suc k + length rs]) @ [(x, k)]"
    by (simp only: zip_append zip_Cons_Cons zip_Nil)
  then show ?case
    using snoc.IH [of "Suc k"] by simp
qed

lemma kept_nths:
  assumes "\<forall>i<length rows. row_decision a r u (clock (k + (length rows - 1 - i))) (rows ! i) = Inr (i \<in> M)"
  shows "rev (kept clock a r u k (rev rows)) = nths rows (- M)"
  using assms
proof (induction rows arbitrary: k rule: rev_induct)
  case Nil
  show ?case by simp
next
  case (snoc x rs)
  have last: "row_decision a r u (clock k) x = Inr (length rs \<in> M)"
    using snoc.prems [rule_format, of "length rs"] by simp
  have "\<forall>i<length rs. row_decision a r u (clock (Suc k + (length rs - 1 - i))) (rs ! i) = Inr (i \<in> M)"
  proof (intro allI impI)
    fix i assume i: "i < length rs"
    have "k + (length (rs @ [x]) - 1 - i) = Suc k + (length rs - 1 - i)"
      using i by simp
    then show "row_decision a r u (clock (Suc k + (length rs - 1 - i))) (rs ! i) = Inr (i \<in> M)"
      using snoc.prems [rule_format, of i] i by (simp add: nth_append)
  qed
  then have "rev (kept clock a r u (Suc k) (rev rs)) = nths rs (- M)"
    by (rule snoc.IH)
  then show ?case
    using last by (simp add: nths_append)
qed

lemma timedelta_days_less:
  "timedelta_days now d < 90 \<longleftrightarrow> to_us now - to_us d < 90 * us_per_day"
proof -
  define x where "x = to_us now - to_us d"
  define q where "q = x div 86400000000"
  define m where "m = x mod 86400000000"
  have "x = 86400000000 * q + m"
    by (simp add: q_def m_def)
  moreover have "0 \<le> m" "m < 86400000000"
    by (simp_all add: m_def)
  ultimately have "q < 90 \<longleftrightarrow> x < 90 * 86400000000"
    by arith
  then show ?thesis
    by (simp add: timedelta_days_def us_per_day_def x_def q_def)
qed

lemma typed_row_decision:
  assumes "typed_row a u row"
  shows "row_decision a r u now row = Inr (disqualified a r u now row)"
proof -
  obtain d where d: "field row u = VDateTime d"
    using assms by (cases "field row u") (auto simp: typed_row_def)
  have "truthy (field row a) \<longleftrightarrow> field row a \<noteq> VNone \<and> field row a \<noteq> VStr []"
    using assms by (cases "field row a") (auto simp: typed_row_def)
  then show ?thesis
    by (simp add: row_decision_def delete_condition_def disqualified_def d timedelta_days_less)
qed

lemma typed_row_decidable: "typed_row a u row \<Longrightarrow> decidable_row a r u row"
  by (simp add: typed_row_def decidable_row_def)

lemma filter_nths:
  "\<forall>i<length xs. P (xs ! i) \<longleftrightarrow> i \<in> A \<Longrightarrow> filter P xs = nths xs A"
proof (induction xs rule: rev_induct)
  case Nil
  show ?case by simp
next
  case (snoc x xs)
  have "\<forall>i<length xs. P (xs ! i) \<longleftrightarrow> i \<in> A"
  proof (intro allI impI)
    fix i assume "i < length xs"
    then show "P (xs ! i) \<longleftrightarrow> i \<in> A"
      using snoc.prems [rule_format, of i] by (simp add: nth_append)
  qed
  moreover have "P x \<longleftrightarrow> length xs \<in> A"
    using snoc.prems [rule_format, of "length xs"] by simp
  ultimately show ?case
    using snoc.IH by (simp add: nths_append)
qed

lemma annotated_filter:
  assumes "\<forall>row\<in>set rows. \<exists>d. row_days a u row = Inr d"
  shows "annotated a u di rows
         = map (\<lambda>row. set_in_row row di (VInt (the_days a u row)))
             (filter (\<lambda>row. 89 \<le> the_days a u row) rows)"
  using assms by (induction rows) (auto simp: annotated_def the_days_def)

lemma calculate_difference_sweep:
  assumes "index_of (VStr ''Udbetalingsdato'') (row_tuple (h # rows) 1) = Some u"
    and "index_of (VStr Adresseaendringsdato) (row_tuple (h # rows) 1) = Some a"
    and "\<forall>row\<in>set rows. \<exists>d. row_days a u row = Inr d"
  shows "calculate_difference (h # rows)
         = (None, (pad h (max_column (h # rows)) @ [VStr ''Difference''])
                  # annotated a u (Suc (max_column (h # rows))) rows)"
proof -
  let ?m = "max_column (h # rows)"
  let ?h = "pad h ?m @ [VStr ''Difference'']"
  have len: "length (row_tuple (h # rows) 1) = ?m"
    by (rule length_row_tuple)
  have hm: "length h \<le> ?m"
    by (rule length_le_max_column) simp
  have ws1: "set_cell (h # rows) 1 (?m + 1) (VStr ''Difference'') = ?h # rows"
    by (simp only: set_cell_header set_in_row_append [OF hm] Suc_eq_plus1 [symmetric])
  have "u < ?m" "a < ?m"
    using index_of_Some [OF assms(1)] index_of_Some [OF assms(2)] len by auto
  moreover have "length ?h = Suc ?m"
    using hm by (simp add: pad_def)
  ultimately have ua: "a < length ?h" "u < length ?h"
    by auto
  have "calculate_difference (h # rows)
        = difference_loop u a (Suc ?m) (rev [2..<Suc (Suc (length rows))]) ((?h # rows) @ [])"
    unfolding calculate_difference_unfold Let_def assms(1,2) len ws1 max_row_Cons
    by simp
  then show ?thesis
    using difference_loop_sweep [OF assms(3) ua, where di = "Suc ?m" and suf = "[]"]
    by simp
qed

lemma row_decision_decidable:
  "row_decision a r u now row = Inr b \<Longrightarrow> decidable_row a r u row"
  by (cases "field row u")
     (auto simp: row_decision_def delete_condition_def decidable_row_def split: if_splits)

lemma difference_loop_raises:
  assumes "\<exists>row\<in>set rows. \<forall>d. row_days a u row \<noteq> Inr d"
    and "a < length h" and "u < length h"
  shows "fst (difference_loop u a di (rev [2..<Suc (Suc (length rows))]) ((h # rows) @ suf))
         \<noteq> None"
  using assms(1)
proof (induction rows arbitrary: suf rule: rev_induct)
  case Nil
  then show ?case by simp
next
  case (snoc x rs)
  have idx: "rev [2..<Suc (Suc (length (rs @ [x])))]
               = Suc (length (h # rs)) # rev [2..<Suc (Suc (length rs))]"
    by simp
  have sheet: "(h # rs @ [x]) @ suf = (h # rs) @ x # suf"
    by simp
  have "length h \<le> max_column ((h # rs) @ x # suf)"
    by (rule length_le_max_column) simp
  then have "a < max_column ((h # rs) @ x # suf)" "u < max_column ((h # rs) @ x # suf)"
    using assms(2,3) by auto
  then have diff: "row_diff (row_tuple ((h # rs) @ x # suf) (Suc (length (h # rs)))) a u
                   = row_days a u x"
    using row_diff_mid [of a "h # rs" x suf u] by simp
  show ?case
  proof (cases "row_days a u x")
    case (Inl e)
    show ?thesis
      unfolding idx sheet difference_loop.simps Let_def diff Inl by simp
  next
    case (Inr d)
    then have bad: "\<exists>row\<in>set rs. \<forall>d. row_days a u row \<noteq> Inr d"
      using snoc.prems by auto
    show ?thesis
    proof (cases "d < 89")
      case True
      have "difference_loop u a di (rev [2..<Suc (Suc (length (rs @ [x])))]) ((h # rs @ [x]) @ suf)
            = difference_loop u a di (rev [2..<Suc (Suc (length rs))]) ((h # rs) @ suf)"
        unfolding idx sheet difference_loop.simps Let_def diff Inr
        using True by (simp only: delete_rows_mid sum.case if_True)
      then show ?thesis
        using snoc.IH [OF bad, of suf] by simp
    next
      case False
      have "difference_loop u a di (rev [2..<Suc (Suc (length (rs @ [x])))]) ((h # rs @ [x]) @ suf)
            = difference_loop u a di (rev [2..<Suc (Suc (length rs))])
                ((h # rs) @ set_in_row x di (VInt d) # suf)"
        unfolding idx sheet difference_loop.simps Let_def diff Inr
        using False by (simp only: set_cell_mid sum.case if_False)
      then show ?thesis
        using snoc.IH [OF bad, of "set_in_row x di (VInt d) # suf"] by simp
    qed
  qed
qed

lemma calculate_difference_raises:
  assumes "index_of (VStr ''Udbetalingsdato'') (row_tuple (h # rows) 1) = Some u"
    and "index_of (VStr Adresseaendringsdato) (row_tuple (h # rows) 1) = Some a"
    and "\<exists>row\<in>set rows. \<forall>d. row_days a u row \<noteq> Inr d"
  shows "fst (calculate_difference (h # rows)) \<noteq> None"
proof -
  let ?m = "max_column (h # rows)"
  let ?h = "pad h ?m @ [VStr ''Difference'']"
  have len: "length (row_tuple (h # rows) 1) = ?m"
    by (rule length_row_tuple)
  have hm: "length h \<le> ?m"
    by (rule length_le_max_column) simp
  have ws1: "set_cell (h # rows) 1 (?m + 1) (VStr ''Difference'') = ?h # rows"
    by (simp only: set_cell_header set_in_row_append [OF hm] Suc_eq_plus1 [symmetric])
  have "u < ?m" "a < ?m"
    using index_of_Some [OF assms(1)] index_of_Some [OF assms(2)] len by auto
  moreover have "length ?h = Suc ?m"
    using hm by (simp add: pad_def)
  ultimately have ua: "a < length ?h" "u < length ?h"
    by auto
  have "calculate_difference (h # rows)
        = difference_loop u a (Suc ?m) (rev [2..<Suc (Suc (length rows))]) ((?h # rows) @ [])"
    unfolding calculate_difference_unfold Let_def assms(1,2) len ws1 max_row_Cons
    by simp
  then show ?thesis
    using difference_loop_raises [OF assms(3) ua, where di = "Suc ?m" and suf = "[]"]
    by simp
qed

lemma row_days_Inr:
  "row_days a u row = Inr d \<Longrightarrow>
     \<exists>ad ud. field row a = VDate ad \<and> field row u = VDateTime ud \<and> d = ad - dt_date ud"
  by (cases "field row u"; cases "field row a") (auto simp: row_days_def)

lemma difference_recorded_set_in_row:
  assumes "row_days a u row = Inr d" and "89 \<le> d" and "a < m" and "u < m"
  shows "difference_recorded a u m (set_in_row row (Suc m) (VInt d))"
proof -
  obtain ad ud where f: "field row a = VDate ad" "field row u = VDateTime ud" "d = ad - dt_date ud"
    using row_days_Inr [OF assms(1)] by blast
  show ?thesis
    using f assms(2,3,4) by (simp add: difference_recorded_def field_set_in_row)
qed

lemma cell_value_delete_rows_header:
  "2 \<le> r \<Longrightarrow> cell_value (delete_rows ws r) 1 c = cell_value ws 1 c"
  by (cases ws) (auto simp: cell_value_def delete_rows_def nth_append take_Cons' )

lemma cell_value_set_cell:
  assumes "1 \<le> r" and "1 \<le> c'"
  shows "cell_value (set_cell ws r c' v) r0 c
         = (if r0 = r \<and> c = c' then v else cell_value ws r0 c)"
proof -
  let ?ws = "ws @ replicate (r - length ws) []"
  have len: "r \<le> length ?ws"
    by simp
  have ext: "cell_value ?ws r0 c = cell_value ws r0 c"
    by (auto simp: cell_value_def nth_append field_def)
  have "cell_value (?ws[r - 1 := set_in_row (?ws ! (r - 1)) c' v]) r0 c
        = (if r0 = r \<and> c = c' then v else cell_value ?ws r0 c)"
    using assms len
    by (auto simp: cell_value_def nth_list_update field_set_in_row [OF assms(2)])
  then show ?thesis
    using ext by (simp add: set_cell_def Let_def)
qed

lemma filter_loop_header:
  "\<forall>i\<in>set idxs. 2 \<le> i \<Longrightarrow>
   cell_value (fst (snd (filter_loop clock a r u idxs k ws))) 1 c = cell_value ws 1 c"
proof (induction idxs arbitrary: k ws)
  case Nil
  show ?case by simp
next
  case (Cons i idxs)
  then have i: "2 \<le> i" and rest: "\<forall>i\<in>set idxs. 2 \<le> i"
    by auto
  show ?case
    using Cons.IH [OF rest] cell_value_delete_rows_header [OF i]
    by (simp add: Let_def split: sum.splits bool.splits)
qed

lemma difference_loop_header:
  "\<forall>i\<in>set idxs. 2 \<le> i \<Longrightarrow> 1 \<le> di \<Longrightarrow>
   cell_value (snd (difference_loop u a di idxs ws)) 1 c = cell_value ws 1 c"
proof (induction idxs arbitrary: ws)
  case Nil
  show ?case by simp
next
  case (Cons i idxs)
  then have i: "2 \<le> i" and rest: "\<forall>i\<in>set idxs. 2 \<le> i"
    by auto
  have i1: "1 \<le> i" and ne: "1 \<noteq> i"
    using i by auto
  show ?case
    using Cons.IH [OF rest Cons.prems(2)] cell_value_delete_rows_header [OF i]
      cell_value_set_cell [OF i1 Cons.prems(2)] ne
    by (simp add: Let_def split: sum.splits)
qed

lemma address_loop_frame:
  "\<forall>i\<in>set idxs. 2 \<le> i \<Longrightarrow> 1 \<le> ai \<Longrightarrow> r = 1 \<or> c \<noteq> ai \<Longrightarrow>
   cell_value (snd (address_loop db ci ai idxs ws)) r c = cell_value ws r c"
proof (induction idxs arbitrary: ws)
  case Nil
  show ?case by simp
next
  case (Cons i idxs)
  then have i: "2 \<le> i" and rest: "\<forall>i\<in>set idxs. 2 \<le> i"
    by auto
  have i1: "1 \<le> i"
    using i by auto
  have "\<not> (r = i \<and> c = ai)"
    using Cons.prems(3) i by auto
  then have step: "cell_value (set_cell ws i ai v) r c = cell_value ws r c" for v
    unfolding cell_value_set_cell [OF i1 Cons.prems(2)] by (simp only: if_False)
  show ?case
    using Cons.IH [OF rest Cons.prems(2,3)] step
    by (simp add: Let_def split: sum.splits option.splits)
qed

lemma upt_ge2: "\<forall>i\<in>set [2..<n]. 2 \<le> i" "\<forall>i\<in>set (rev [2..<n]). 2 \<le> i"
  by auto

lemma cell_value_beyond: "max_column ws < c \<Longrightarrow> cell_value ws r c = VNone"
proof (cases "1 \<le> r \<and> r \<le> length ws")
  case True
  assume c: "max_column ws < c"
  have "ws ! (r - 1) \<in> set ws"
    using True by (intro nth_mem) auto
  then have "length (ws ! (r - 1)) \<le> max_column ws"
    by (rule length_le_max_column)
  then have "\<not> c - 1 < length (ws ! (r - 1))"
    using c by arith
  then show ?thesis
    unfolding cell_value_def field_def by (simp only: if_False if_cancel)
next
  case False
  then show ?thesis by (auto simp: cell_value_def)
qed

lemma read_excel_file_header:
  "cell_value (fst (snd (read_excel_file clock ws))) 1 c = cell_value ws 1 c"
proof -
  let ?ws0 = "create_row_cells ws 1"
  have loop: "cell_value (fst (snd (filter_loop clock a r u (rev [2..<Suc (max_row ?ws0)]) 0 ?ws0))) 1 c
              = cell_value ?ws0 1 c" for a r u
    by (rule filter_loop_header [OF upt_ge2(2)])
  have same: "cell_value ?ws0 1 c = cell_value ws 1 c"
    by (rule cell_value_create_row_cells)
  show ?thesis
    unfolding read_excel_file_def Let_def
    using loop same by (auto split: option.splits simp del: upt_Suc)
qed

lemma get_address_changes_frame:
  assumes "r = 1 \<or> c \<le> max_column ws"
  shows "cell_value (snd (get_address_changes db ws)) r c
         = (if r = 1 \<and> c = max_column ws + 1 then VStr Adresseaendringsdato
            else cell_value ws r c)"
proof -
  let ?ai = "max_column ws + 1"
  let ?ws1 = "set_cell ws 1 ?ai (VStr Adresseaendringsdato)"
  have one: "cell_value ?ws1 r c
             = (if r = 1 \<and> c = ?ai then VStr Adresseaendringsdato else cell_value ws r c)"
    by (rule cell_value_set_cell) simp_all
  have loop: "cell_value (snd (address_loop db ci ?ai [2..<max_row ?ws1 + 1] ?ws1)) r c
              = cell_value ?ws1 r c" if "\<not> (r = 1 \<and> c = ?ai)" for ci
  proof (rule address_loop_frame [OF upt_ge2(1)])
    show "1 \<le> ?ai" by simp
    show "r = 1 \<or> c \<noteq> ?ai" using assms by auto
  qed
  have loop1: "cell_value (snd (address_loop db ci ?ai [2..<max_row ?ws1 + 1] ?ws1)) 1 c
              = cell_value ?ws1 1 c" for ci
    by (rule address_loop_frame [OF upt_ge2(1)]) simp_all
  show ?thesis
    unfolding get_address_changes_unfold Let_def length_row_tuple
    using one loop loop1
    by (auto split: option.splits simp del: upt_Suc)
qed

lemma calculate_difference_header:
  "cell_value (snd (calculate_difference ws)) 1 c
   = (if c = max_column ws + 1 then VStr ''Difference'' else cell_value ws 1 c)"
proof -
  let ?di = "max_column ws + 1"
  let ?ws1 = "set_cell ws 1 ?di (VStr ''Difference'')"
  have one: "cell_value ?ws1 1 c
             = (if c = ?di then VStr ''Difference'' else cell_value ws 1 c)"
    using cell_value_set_cell [of 1 ?di ws "VStr ''Difference''" 1 c] by simp
  have loop: "cell_value (snd (difference_loop u a ?di (rev [2..<Suc (max_row ?ws1)]) ?ws1)) 1 c
              = cell_value ?ws1 1 c" for u a
    by (rule difference_loop_header [OF upt_ge2(2)]) simp
  show ?thesis
    unfolding calculate_difference_unfold Let_def length_row_tuple
    using one loop
    by (auto split: option.splits simp del: upt_Suc)
qed

lemma length_set_in_row: "length (set_in_row row c v) = max (length row) c"
  by (simp add: set_in_row_def pad_def)

lemma set_cell_lengths:
  assumes "\<forall>row\<in>set ws. length row \<le> n" and "c \<le> n"
  shows "\<forall>row\<in>set (set_cell ws r c v). length row \<le> n"
proof
  fix row assume row: "row \<in> set (set_cell ws r c v)"
  define W where "W = ws @ replicate (r - length ws) []"
  have all: "\<forall>row\<in>set W. length row \<le> n"
    using assms(1) by (auto simp: W_def)
  have sc: "set_cell ws r c v = W[r - 1 := set_in_row (W ! (r - 1)) c v]"
    by (simp add: set_cell_def Let_def W_def)
  show "length row \<le> n"
  proof (cases "r - 1 < length W")
    case True
    then have "W ! (r - 1) \<in> set W"
      by (rule nth_mem)
    then have "length (W ! (r - 1)) \<le> n"
      using all by blast
    then have new: "length (set_in_row (W ! (r - 1)) c v) \<le> n"
      using assms(2) by (simp add: length_set_in_row)
    have "row \<in> insert (set_in_row (W ! (r - 1)) c v) (set W)"
      using row set_update_subset_insert [of W "r - 1" "set_in_row (W ! (r - 1)) c v"]
      unfolding sc by blast
    then show ?thesis
      using new all by blast
  next
    case False
    then have "length W \<le> r - 1"
      by (simp only: not_less)
    then have "set_cell ws r c v = W"
      unfolding sc by (rule list_update_beyond)
    then show ?thesis
      using row all by blast
  qed
qed

lemma delete_rows_lengths:
  assumes "\<forall>row\<in>set ws. length row \<le> n"
  shows "\<forall>row\<in>set (delete_rows ws r). length row \<le> n"
  using assms set_take_subset [of "r - 1" ws] set_drop_subset [of r ws]
  by (auto simp: delete_rows_def)

lemma address_loop_lengths:
  "\<forall>row\<in>set ws. length row \<le> n \<Longrightarrow> ai \<le> n \<Longrightarrow>
   \<forall>row\<in>set (snd (address_loop db ci ai idxs ws)). length row \<le> n"
proof (induction idxs arbitrary: ws)
  case Nil
  then show ?case by simp
next
  case (Cons i idxs)
  show ?case
    using Cons.IH [OF Cons.prems] Cons.IH [OF set_cell_lengths [OF Cons.prems] Cons.prems(2)]
      Cons.prems(1)
    by (simp add: Let_def split: sum.splits option.splits)
qed

lemma difference_loop_lengths:
  "\<forall>row\<in>set ws. length row \<le> n \<Longrightarrow> di \<le> n \<Longrightarrow>
   \<forall>row\<in>set (snd (difference_loop u a di idxs ws)). length row \<le> n"
proof (induction idxs arbitrary: ws)
  case Nil
  then show ?case by simp
next
  case (Cons i idxs)
  show ?case
    using Cons.IH [OF delete_rows_lengths [OF Cons.prems(1)] Cons.prems(2)]
      Cons.IH [OF set_cell_lengths [OF Cons.prems] Cons.prems(2)]
      Cons.prems(1)
    by (simp add: Let_def split: sum.splits)
qed

lemma rows_within_max_column: "\<forall>row\<in>set ws. length row \<le> max_column ws + 1"
  using length_le_max_column [of _ ws] by fastforce

lemma get_address_changes_lengths:
  "\<forall>row\<in>set (snd (get_address_changes db ws)). length row \<le> max_column ws + 1"
proof -
  let ?ai = "max_column ws + 1"
  have start: "\<forall>row\<in>set (set_cell ws 1 ?ai v). length row \<le> ?ai" for v
    by (rule set_cell_lengths [OF rows_within_max_column]) simp
  have loop: "\<forall>row\<in>set (snd (address_loop db ci ?ai idxs (set_cell ws 1 ?ai v))).
                length row \<le> ?ai" for ci idxs v
    by (rule address_loop_lengths [OF start]) simp
  show ?thesis
    unfolding get_address_changes_unfold Let_def length_row_tuple
    using start loop
    by (auto split: option.splits simp del: upt_Suc)
qed

lemma calculate_difference_lengths:
  "\<forall>row\<in>set (snd (calculate_difference ws)). length row \<le> max_column ws + 1"
proof -
  let ?di = "max_column ws + 1"
  have start: "\<forall>row\<in>set (set_cell ws 1 ?di v). length row \<le> ?di" for v
    by (rule set_cell_lengths [OF rows_within_max_column]) simp
  have loop: "\<forall>row\<in>set (snd (difference_loop u a ?di idxs (set_cell ws 1 ?di v))).
                length row \<le> ?di" for u a idxs v
    by (rule difference_loop_lengths [OF start]) simp
  show ?thesis
    unfolding calculate_difference_unfold Let_def length_row_tuple
    using start loop
    by (auto split: option.splits simp del: upt_Suc)
qed

lemma get_address_changes_max_column:
  "max_column (snd (get_address_changes db ws)) = max_column ws + 1"
proof (rule antisym)
  show "max_column (snd (get_address_changes db ws)) \<le> max_column ws + 1"
    by (rule max_column_bound [OF get_address_changes_lengths]) simp
  show "max_column ws + 1 \<le> max_column (snd (get_address_changes db ws))"
  proof (rule ccontr)
    assume "\<not> max_column ws + 1 \<le> max_column (snd (get_address_changes db ws))"
    then have "cell_value (snd (get_address_changes db ws)) 1 (max_column ws + 1) = VNone"
      by (intro cell_value_beyond) simp
    then show False
      using get_address_changes_frame [of 1 "max_column ws + 1" ws db] by simp
  qed
qed

lemma calculate_difference_max_column:
  "max_column (snd (calculate_difference ws)) = max_column ws + 1"
proof (rule antisym)
  show "max_column (snd (calculate_difference ws)) \<le> max_column ws + 1"
    by (rule max_column_bound [OF calculate_difference_lengths]) simp
  show "max_column ws + 1 \<le> max_column (snd (calculate_difference ws))"
  proof (rule ccontr)
    assume "\<not> max_column ws + 1 \<le> max_column (snd (calculate_difference ws))"
    then have "cell_value (snd (calculate_difference ws)) 1 (max_column ws + 1) = VNone"
      by (intro cell_value_beyond) simp
    then show False
      using calculate_difference_header [of ws "max_column ws + 1"] by simp
  qed
qed

lemma calculate_difference_completes:
  assumes "calculate_difference ws = (None, ws')"
  shows "\<exists>h rows u a. ws = h # rows
           \<and> index_of (VStr ''Udbetalingsdato'') (row_tuple (h # rows) 1) = Some u
           \<and> index_of (VStr Adresseaendringsdato) (row_tuple (h # rows) 1) = Some a"
proof (cases ws)
  case Nil
  have "row_tuple [] 1 = [VNone]"
    by (simp add: row_tuple_def max_column_def cell_value_def)
  then have "calculate_difference [] \<noteq> (None, ws')"
    by (simp add: calculate_difference_unfold Let_def)
  then show ?thesis
    using assms Nil by simp
next
  case (Cons h rows)
  show ?thesis
    using assms unfolding Cons calculate_difference_unfold Let_def
    by (auto split: option.splits)
qed

lemma dated_row_days:
  "dated_row a u row \<Longrightarrow> row_days a u row = Inr (day_difference a u row)"
  by (cases "field row a"; cases "field row u")
     (auto simp: dated_row_def row_days_def day_difference_def)

lemma calculate_difference_result:
  assumes "index_of (VStr ''Udbetalingsdato'') (row_tuple (h # rows) 1) = Some u"
    and "index_of (VStr Adresseaendringsdato) (row_tuple (h # rows) 1) = Some a"
    and "calculate_difference (h # rows) = (None, ws')"
  shows "\<forall>row\<in>set rows. \<exists>d. row_days a u row = Inr d"
    and "ws' = (pad h (max_column (h # rows)) @ [VStr ''Difference''])
               # map (\<lambda>row. set_in_row row (Suc (max_column (h # rows)))
                              (VInt (the_days a u row)))
                   (filter (\<lambda>row. 89 \<le> the_days a u row) rows)"
proof -
  show days: "\<forall>row\<in>set rows. \<exists>d. row_days a u row = Inr d"
  proof (rule ccontr)
    assume "\<not> (\<forall>row\<in>set rows. \<exists>d. row_days a u row = Inr d)"
    then have "\<exists>row\<in>set rows. \<forall>d. row_days a u row \<noteq> Inr d"
      by blast
    then have "fst (calculate_difference (h # rows)) \<noteq> None"
      by (rule calculate_difference_raises [OF assms(1,2)])
    then show False
      using assms(3) by simp
  qed
  show "ws' = (pad h (max_column (h # rows)) @ [VStr ''Difference''])
               # map (\<lambda>row. set_in_row row (Suc (max_column (h # rows)))
                              (VInt (the_days a u row)))
                   (filter (\<lambda>row. 89 \<le> the_days a u row) rows)"
    using calculate_difference_sweep [OF assms(1,2) days] assms(3)
    by (simp add: annotated_filter [OF days])
qed

text \<open>The sheet keeps its width when the only row wider than the header is deleted: the
  header cells created by reading \<^verbatim>\<open>ws[1]\<close> remain.\<close>

lemma read_excel_file_keeps_width:
  "read_excel_file (\<lambda>k. DateTime (ymd 2024 6 1) 0)
     [sample_header,
      sample_row ''P1'' (DateTime (ymd 2024 1 1) 0) (VStr ''X'') VNone @ [VInt 7],
      sample_row ''P2'' (DateTime (ymd 2024 1 1) 0) VNone VNone]
   = (None,
      [sample_header @ [VNone],
       sample_row ''P2'' (DateTime (ymd 2024 1 1) 0) VNone VNone], 2)"
  by code_simp

section \<open>Properties of the address history lookup\<close>

lemma walk_rows_takeWhile:
  "walk_rows k d rows =
     (case takeWhile (\<lambda>r. Adressenoegle r = k) rows of
        [] \<Rightarrow> d
      | _ \<Rightarrow> DatoFra (last (takeWhile (\<lambda>r. Adressenoegle r = k) rows)))"
  by (induction rows arbitrary: d) (auto split: list.splits)

lemma look_up_rowcount_zero:
  "rowcount (db cpr) = 0 \<Longrightarrow> look_up_address_change db cpr = Inr None"
  by (simp add: look_up_address_change_def)

text \<open>
  Claim C1. For a non-empty address history the lookup returns the \<^verbatim>\<open>DatoFra\<close> of the
  oldest entry of the longest run of entries, from the newest one on, that carry the
  newest entry's \<^verbatim>\<open>Adressenoegle\<close>. (The driver reports the row count or -1; the order of
  the entries is the one the query delivers.)
\<close>

theorem look_up_address_change_run_start:
  assumes "fetchall (db cpr) \<noteq> []"
    and "rowcount_sound (db cpr)"
  shows "look_up_address_change db cpr =
     Inr (Some (DatoFra (last (takeWhile
        (\<lambda>r. Adressenoegle r = Adressenoegle (hd (fetchall (db cpr))))
        (fetchall (db cpr))))))"
proof -
  obtain r0 rs where rows: "fetchall (db cpr) = r0 # rs"
    using assms(1) by (cases "fetchall (db cpr)") auto
  have nz: "rowcount (db cpr) \<noteq> 0"
    using assms(2) rows by (auto simp: rowcount_sound_def)
  show ?thesis
    using nz rows by (simp add: look_up_address_change_def walk_rows_takeWhile)
qed

theorem look_up_address_change_run_start_witness:
  "look_up_address_change
     (\<lambda>_. \<lparr>rowcount = - 1, fetchall =
        [\<lparr>DatoFra = ymd 2024 6 1, Adressenoegle = ''A''\<rparr>,
         \<lparr>DatoFra = ymd 2024 1 1, Adressenoegle = ''A''\<rparr>,
         \<lparr>DatoFra = ymd 2023 6 1, Adressenoegle = ''B''\<rparr>]\<rparr>) (VStr ''P1'')
     = Inr (Some (ymd 2024 1 1))
   \<and> look_up_address_change
     (\<lambda>_. \<lparr>rowcount = 1, fetchall = [\<lparr>DatoFra = ymd 2022 3 3, Adressenoegle = ''X''\<rparr>]\<rparr>)
     (VStr ''P1'')
     = Inr (Some (ymd 2022 3 3))"
proof -
  let ?db1 = "\<lambda>_::cell. \<lparr>rowcount = - 1, fetchall =
        [\<lparr>DatoFra = ymd 2024 6 1, Adressenoegle = ''A''\<rparr>,
         \<lparr>DatoFra = ymd 2024 1 1, Adressenoegle = ''A''\<rparr>,
         \<lparr>DatoFra = ymd 2023 6 1, Adressenoegle = ''B''\<rparr>]\<rparr>"
  let ?db2 = "\<lambda>_::cell. \<lparr>rowcount = 1,
        fetchall = [\<lparr>DatoFra = ymd 2022 3 3, Adressenoegle = ''X''\<rparr>]\<rparr>"
  have a: "fetchall (?db1 (VStr ''P1'')) \<noteq> []" "rowcount_sound (?db1 (VStr ''P1''))"
    by (simp_all add: rowcount_sound_def)
  have b: "fetchall (?db2 (VStr ''P1'')) \<noteq> []" "rowcount_sound (?db2 (VStr ''P1''))"
    by (simp_all add: rowcount_sound_def)
  show ?thesis
    using look_up_address_change_run_start [of ?db1 "VStr ''P1''", OF a]
      look_up_address_change_run_start [of ?db2 "VStr ''P1''", OF b]
    by simp
qed

text \<open>
  Claim C5. The lookup tests \<^verbatim>\<open>cursor.rowcount == 0\<close>, not whether \<^verbatim>\<open>fetchall()\<close> is empty.
  On an empty history whose row count the driver reports as -1 (unknown), the guard does
  not fire and \<^verbatim>\<open>rows[0]\<close> raises \<^verbatim>\<open>IndexError\<close>.
\<close>

theorem look_up_address_change_empty_unknown_rowcount:
  "look_up_address_change (\<lambda>_. \<lparr>rowcount = - 1, fetchall = []\<rparr>) (VStr ''0101901234'')
     = Inl IndexError"
  by (simp add: look_up_address_change_def)

section \<open>The eligibility filter\<close>

text \<open>
  Claim C8. When one of the five required column names (\<^verbatim>\<open>CPR\<close>, \<^verbatim>\<open>Belob\<close>,
  \<^verbatim>\<open>Udbetalingsdato\<close>, \<^verbatim>\<open>Aftale type\<close>, \<^verbatim>\<open>RIM aftaletype\<close>) is not in row 1,
  \<^verbatim>\<open>read_excel_file\<close> raises (the \<^verbatim>\<open>ValueError\<close> of \<^verbatim>\<open>list.index\<close>, the specification's
  schema error) before the clock is read once and with the worksheet as it was loaded,
  but for the empty header cells that reading \<^verbatim>\<open>ws[1]\<close> has created: no row has been
  examined or deleted, and every cell reads as before.
\<close>

theorem read_excel_file_missing_column:
  assumes "VStr ''CPR'' \<notin> set (row_tuple ws 1)
         \<or> VStr Beloeb \<notin> set (row_tuple ws 1)
         \<or> VStr ''Udbetalingsdato'' \<notin> set (row_tuple ws 1)
         \<or> VStr ''Aftale type'' \<notin> set (row_tuple ws 1)
         \<or> VStr ''RIM aftaletype'' \<notin> set (row_tuple ws 1)"
  shows "read_excel_file clock ws = (Some ValueError, create_row_cells ws 1, 0)
       \<and> tl (create_row_cells ws 1) = tl ws
       \<and> max_row (create_row_cells ws 1) = max_row ws
       \<and> max_column (create_row_cells ws 1) = max_column ws
       \<and> (\<forall>r c. cell_value (create_row_cells ws 1) r c = cell_value ws r c)"
proof -
  have "read_excel_file clock ws = (Some ValueError, create_row_cells ws 1, 0)"
    using assms
    unfolding read_excel_file_def Let_def index_of_None [symmetric]
    by (auto split: option.splits)
  then show ?thesis
    using tl_create_row_cells [of ws] max_row_create_row_cells [of ws]
      max_column_create_row_cells [of ws] cell_value_create_row_cells [of ws]
    by simp
qed

theorem read_excel_file_missing_column_witness:
  "read_excel_file (\<lambda>_. DateTime (ymd 2024 6 1) 0)
     [[VStr ''CPR'', VStr ''Udbetalingsdato'', VStr ''Aftale type'', VStr ''RIM aftaletype''],
      [VStr ''P1'', VDateTime (DateTime (ymd 2024 5 30) 0), VStr ''X'', VStr ''IN'']]
   = (Some ValueError,
     [[VStr ''CPR'', VStr ''Udbetalingsdato'', VStr ''Aftale type'', VStr ''RIM aftaletype''],
      [VStr ''P1'', VDateTime (DateTime (ymd 2024 5 30) 0), VStr ''X'', VStr ''IN'']], 0)"
proof -
  let ?ws = "[[VStr ''CPR'', VStr ''Udbetalingsdato'', VStr ''Aftale type'', VStr ''RIM aftaletype''],
      [VStr ''P1'', VDateTime (DateTime (ymd 2024 5 30) 0), VStr ''X'', VStr ''IN'']]"
  have missing: "VStr Beloeb \<notin> set (row_tuple ?ws 1)"
    by code_simp
  have same: "create_row_cells ?ws 1 = ?ws"
    by code_simp
  have "read_excel_file (\<lambda>_. DateTime (ymd 2024 6 1) 0) ?ws
        = (Some ValueError, create_row_cells ?ws 1, 0)"
    using missing read_excel_file_missing_column [of ?ws] by blast
  then show ?thesis
    unfolding same .
qed

text \<open>
  Claim C3, as stated, fails: its \<^verbatim>\<open>now\<close> is one timestamp for the run, while the loop
  reads the clock at every row. Of two equal rows dated 2024-01-01 00:00, visited just
  before and at midnight of 2024-03-31, one is deleted and one stays, so for no single
  \<^verbatim>\<open>now\<close> are the rows that stay exactly those for which none of the three predicates
  holds.
\<close>

theorem read_excel_file_no_single_now:
  "\<not> (\<exists>now. read_excel_file ticking_clock
          [sample_header,
           sample_row ''P1'' (DateTime (ymd 2024 1 1) 0) VNone VNone,
           sample_row ''P1'' (DateTime (ymd 2024 1 1) 0) VNone VNone]
        = (None,
           sample_header
           # filter (\<lambda>row. \<not> disqualified 3 4 2 now row)
               [sample_row ''P1'' (DateTime (ymd 2024 1 1) 0) VNone VNone,
                sample_row ''P1'' (DateTime (ymd 2024 1 1) 0) VNone VNone],
           2))"
proof
  let ?r = "sample_row ''P1'' (DateTime (ymd 2024 1 1) 0) VNone VNone"
  assume "\<exists>now. read_excel_file ticking_clock [sample_header, ?r, ?r]
        = (None, sample_header # filter (\<lambda>row. \<not> disqualified 3 4 2 now row) [?r, ?r], 2)"
  then obtain now where now: "read_excel_file ticking_clock [sample_header, ?r, ?r]
        = (None, sample_header # filter (\<lambda>row. \<not> disqualified 3 4 2 now row) [?r, ?r], 2)"
    by blast
  have run: "read_excel_file ticking_clock [sample_header, ?r, ?r] = (None, [sample_header, ?r], 2)"
    by code_simp
  have "filter (\<lambda>row. \<not> disqualified 3 4 2 now row) [?r, ?r] = [?r]"
    using now unfolding run by simp
  then show False
    by (cases "disqualified 3 4 2 now ?r") simp_all
qed

text \<open>
  Claim C3, amended. On a sheet whose header has the required columns and whose data
  rows are typed as the data model says, \<^verbatim>\<open>read_excel_file\<close> completes, and a data row
  stays if and only if none of the three disqualifying predicates holds of it: agreement
  type neither null nor empty, special agreement type equal to \<^verbatim>\<open>"IN"\<close>, \<^verbatim>\<open>now\<close> minus
  disbursement date strictly less than 90 days, where \<^verbatim>\<open>now\<close> is the clock value read
  when that row is visited (the last row at reading 0, the row above it at reading 1,
  and so on). The rows that stay keep their order.
\<close>

theorem read_excel_file_keeps_iff:
  assumes "VStr ''CPR'' \<in> set (row_tuple (h # rows) 1)"
    and "VStr Beloeb \<in> set (row_tuple (h # rows) 1)"
    and "index_of (VStr ''Udbetalingsdato'') (row_tuple (h # rows) 1) = Some u"
    and "index_of (VStr ''Aftale type'') (row_tuple (h # rows) 1) = Some a"
    and "index_of (VStr ''RIM aftaletype'') (row_tuple (h # rows) 1) = Some r"
    and "\<forall>row\<in>set rows. typed_row a u row"
  shows "read_excel_file clock (h # rows)
         = (None,
            pad h (max_column (h # rows))
            # map fst (filter (\<lambda>(row, t). \<not> disqualified a r u (clock t) row)
                  (zip rows (rev [0..<length rows]))),
            length rows)"
proof -
  have dec: "\<forall>row\<in>set rows. decidable_row a r u row"
    using assms(6) typed_row_decidable by blast
  have "filter (\<lambda>(row, t). row_decision a r u (clock t) row = Inr False)
          (zip rows (rev [0..<length rows]))
        = filter (\<lambda>(row, t). \<not> disqualified a r u (clock t) row)
          (zip rows (rev [0..<length rows]))"
  proof (rule filter_cong [OF refl])
    fix p assume p: "p \<in> set (zip rows (rev [0..<length rows]))"
    obtain row t where rt: "p = (row, t)" by (cases p)
    have "row \<in> set rows"
      using p rt by (auto dest: set_zip_leftD)
    then have "typed_row a u row"
      using assms(6) by blast
    then show "(case p of (row, t) \<Rightarrow> row_decision a r u (clock t) row = Inr False)
             = (case p of (row, t) \<Rightarrow> \<not> disqualified a r u (clock t) row)"
      by (simp add: rt typed_row_decision)
  qed
  then show ?thesis
    using read_excel_file_sweep [OF assms(1-5) dec, of clock]
      kept_zip [of clock a r u 0 rows]
    by simp
qed

theorem read_excel_file_keeps_iff_witness:
  "read_excel_file (\<lambda>k. DateTime (ymd 2024 6 1) (int k))
     [sample_header,
      sample_row ''P1'' (DateTime (ymd 2024 1 1) 0) VNone VNone,
      sample_row ''P2'' (DateTime (ymd 2024 1 1) 0) (VStr ''X'') VNone,
      sample_row ''P3'' (DateTime (ymd 2024 1 1) 0) (VStr []) (VStr ''IN''),
      sample_row ''P4'' (DateTime (ymd 2024 3 3) 2) (VStr []) VNone,
      sample_row ''P5'' (DateTime (ymd 2024 3 3) 0) (VStr []) (VStr ''UD'')]
   = (None,
      [sample_header,
       sample_row ''P1'' (DateTime (ymd 2024 1 1) 0) VNone VNone,
       sample_row ''P5'' (DateTime (ymd 2024 3 3) 0) (VStr []) (VStr ''UD'')], 5)"
proof -
  let ?clock = "\<lambda>k. DateTime (ymd 2024 6 1) (int k)"
  let ?rows = "[sample_row ''P1'' (DateTime (ymd 2024 1 1) 0) VNone VNone,
      sample_row ''P2'' (DateTime (ymd 2024 1 1) 0) (VStr ''X'') VNone,
      sample_row ''P3'' (DateTime (ymd 2024 1 1) 0) (VStr []) (VStr ''IN''),
      sample_row ''P4'' (DateTime (ymd 2024 3 3) 2) (VStr []) VNone,
      sample_row ''P5'' (DateTime (ymd 2024 3 3) 0) (VStr []) (VStr ''UD'')]"
  have c1: "VStr ''CPR'' \<in> set (row_tuple (sample_header # ?rows) 1)"
    by code_simp
  have c2: "VStr Beloeb \<in> set (row_tuple (sample_header # ?rows) 1)"
    by code_simp
  have c3: "index_of (VStr ''Udbetalingsdato'') (row_tuple (sample_header # ?rows) 1) = Some 2"
    by code_simp
  have c4: "index_of (VStr ''Aftale type'') (row_tuple (sample_header # ?rows) 1) = Some 3"
    by code_simp
  have c5: "index_of (VStr ''RIM aftaletype'') (row_tuple (sample_header # ?rows) 1) = Some 4"
    by code_simp
  have c6: "\<forall>row\<in>set ?rows. typed_row 3 2 row"
    by code_simp
  have rhs: "map fst (filter (\<lambda>(row, t). \<not> disqualified 3 4 2 (?clock t) row)
                  (zip ?rows (rev [0..<5])))
             = [sample_row ''P1'' (DateTime (ymd 2024 1 1) 0) VNone VNone,
                sample_row ''P5'' (DateTime (ymd 2024 3 3) 0) (VStr []) (VStr ''UD'')]"
    by code_simp
  have hp: "pad sample_header (max_column (sample_header # ?rows)) = sample_header"
    by code_simp
  have len: "length ?rows = 5"
    by simp
  show ?thesis
    using read_excel_file_keeps_iff [OF c1 c2 c3 c4 c5 c6, of ?clock]
    unfolding len rhs hp .
qed

text \<open>
  Claim C6, as stated, fails: \<^verbatim>\<open>current_date = datetime.now()\<close> stands inside the loop, so
  the clock is read once per row. Two equal rows, dated 2024-01-01 00:00, are visited
  just before and at midnight of 2024-03-31: the one visited first (the last row) is 89
  days old and is deleted, the other is 90 days old and stays.
\<close>

theorem read_excel_file_resamples_clock:
  "read_excel_file ticking_clock
     [sample_header,
      sample_row ''P1'' (DateTime (ymd 2024 1 1) 0) VNone VNone,
      sample_row ''P1'' (DateTime (ymd 2024 1 1) 0) VNone VNone]
   = (None, [sample_header, sample_row ''P1'' (DateTime (ymd 2024 1 1) 0) VNone VNone], 2)"
  by code_simp

text \<open>
  Claim C6, amended. \<^verbatim>\<open>read_excel_file\<close> reads the clock once per data row, at the row's
  visit. When every reading returns the same value \<open>now\<close> (a fixed clock), every row is
  judged against \<open>now\<close>, and the filtered sheet is a function of the input sheet and
  \<open>now\<close> alone: the header, then the rows the condition does not delete, in order.
\<close>

theorem read_excel_file_fixed_clock:
  assumes "VStr ''CPR'' \<in> set (row_tuple (h # rows) 1)"
    and "VStr Beloeb \<in> set (row_tuple (h # rows) 1)"
    and "index_of (VStr ''Udbetalingsdato'') (row_tuple (h # rows) 1) = Some u"
    and "index_of (VStr ''Aftale type'') (row_tuple (h # rows) 1) = Some a"
    and "index_of (VStr ''RIM aftaletype'') (row_tuple (h # rows) 1) = Some r"
    and "\<forall>row\<in>set rows. decidable_row a r u row"
  shows "read_excel_file (\<lambda>k. now) (h # rows)
         = (None,
            pad h (max_column (h # rows))
            # filter (\<lambda>row. row_decision a r u now row = Inr False) rows,
            length rows)"
  using read_excel_file_sweep [OF assms, of "\<lambda>k. now"]
  by (simp add: kept_const rev_filter)

theorem read_excel_file_fixed_clock_witness:
  "read_excel_file (\<lambda>k. ticking_clock 1)
     [sample_header,
      sample_row ''P1'' (DateTime (ymd 2024 1 1) 0) VNone VNone,
      sample_row ''P2'' (DateTime (ymd 2024 1 1) 1) VNone VNone]
   = (None, [sample_header, sample_row ''P1'' (DateTime (ymd 2024 1 1) 0) VNone VNone], 2)"
proof -
  let ?rows = "[sample_row ''P1'' (DateTime (ymd 2024 1 1) 0) VNone VNone,
      sample_row ''P2'' (DateTime (ymd 2024 1 1) 1) VNone VNone]"
  have c1: "VStr ''CPR'' \<in> set (row_tuple (sample_header # ?rows) 1)"
    by code_simp
  have c2: "VStr Beloeb \<in> set (row_tuple (sample_header # ?rows) 1)"
    by code_simp
  have c3: "index_of (VStr ''Udbetalingsdato'') (row_tuple (sample_header # ?rows) 1) = Some 2"
    by code_simp
  have c4: "index_of (VStr ''Aftale type'') (row_tuple (sample_header # ?rows) 1) = Some 3"
    by code_simp
  have c5: "index_of (VStr ''RIM aftaletype'') (row_tuple (sample_header # ?rows) 1) = Some 4"
    by code_simp
  have c6: "\<forall>row\<in>set ?rows. decidable_row 3 4 2 row"
    by code_simp
  have rhs: "filter (\<lambda>row. row_decision 3 4 2 (ticking_clock 1) row = Inr False) ?rows
             = [sample_row ''P1'' (DateTime (ymd 2024 1 1) 0) VNone VNone]"
    by code_simp
  have hp: "pad sample_header (max_column (sample_header # ?rows)) = sample_header"
    by code_simp
  have len: "length ?rows = 2"
    by simp
  show ?thesis
    using read_excel_file_fixed_clock [OF c1 c2 c3 c4 c5 c6, of "ticking_clock 1"]
    unfolding len rhs hp .
qed

section \<open>The correlation\<close>

text \<open>
  Claim C2. On a sheet whose header has the two columns and whose data rows each hold an
  address change date and a disbursement timestamp, \<^verbatim>\<open>calculate_difference\<close> completes,
  and the sheet it leaves is the header with \<^verbatim>\<open>Difference\<close> appended, then exactly the
  rows whose difference (address change date minus the date of the disbursement
  timestamp) is at least 89, in order, each with that difference written into the new
  column: every row left has its day difference set, equal to address change date
  minus disbursement date, and at least 89, and every row with a difference below 89 is
  gone.
\<close>

theorem calculate_difference_rows:
  assumes "index_of (VStr ''Udbetalingsdato'') (row_tuple (h # rows) 1) = Some u"
    and "index_of (VStr Adresseaendringsdato) (row_tuple (h # rows) 1) = Some a"
    and "\<forall>row\<in>set rows. dated_row a u row"
  shows "calculate_difference (h # rows)
         = (None,
            (pad h (max_column (h # rows)) @ [VStr ''Difference''])
            # map (\<lambda>row. set_in_row row (Suc (max_column (h # rows)))
                           (VInt (day_difference a u row)))
                (filter (\<lambda>row. 89 \<le> day_difference a u row) rows))
       \<and> (\<forall>row\<in>set (map (\<lambda>row. set_in_row row (Suc (max_column (h # rows)))
                                    (VInt (day_difference a u row)))
                         (filter (\<lambda>row. 89 \<le> day_difference a u row) rows)).
            difference_recorded a u (max_column (h # rows)) row)"
proof -
  let ?m = "max_column (h # rows)"
  have each: "row_days a u row = Inr (day_difference a u row)" if "row \<in> set rows" for row
    using assms(3) that dated_row_days by blast
  then have days: "\<forall>row\<in>set rows. \<exists>d. row_days a u row = Inr d"
    by blast
  have same: "the_days a u row = day_difference a u row" if "row \<in> set rows" for row
    using each [OF that] by (simp add: the_days_def)
  have list: "map (\<lambda>row. set_in_row row (Suc ?m) (VInt (the_days a u row)))
                (filter (\<lambda>row. 89 \<le> the_days a u row) rows)
              = map (\<lambda>row. set_in_row row (Suc ?m) (VInt (day_difference a u row)))
                (filter (\<lambda>row. 89 \<le> day_difference a u row) rows)"
  proof -
    have "filter (\<lambda>row. 89 \<le> the_days a u row) rows
          = filter (\<lambda>row. 89 \<le> day_difference a u row) rows"
      by (rule filter_cong) (simp_all add: same)
    then show ?thesis
      by (auto simp: same)
  qed
  have sheet: "calculate_difference (h # rows)
         = (None,
            (pad h ?m @ [VStr ''Difference''])
            # map (\<lambda>row. set_in_row row (Suc ?m) (VInt (day_difference a u row)))
                (filter (\<lambda>row. 89 \<le> day_difference a u row) rows))"
    using calculate_difference_sweep [OF assms(1,2) days]
    by (simp add: annotated_filter [OF days] list)
  have len: "length (row_tuple (h # rows) 1) = ?m"
    by (rule length_row_tuple)
  have am: "a < ?m" and um: "u < ?m"
    using index_of_Some [OF assms(1)] index_of_Some [OF assms(2)] len by auto
  have "\<forall>row\<in>set (map (\<lambda>row. set_in_row row (Suc ?m) (VInt (day_difference a u row)))
                       (filter (\<lambda>row. 89 \<le> day_difference a u row) rows)).
          difference_recorded a u ?m row"
  proof
    fix row'
    assume "row' \<in> set (map (\<lambda>row. set_in_row row (Suc ?m) (VInt (day_difference a u row)))
                       (filter (\<lambda>row. 89 \<le> day_difference a u row) rows))"
    then obtain row where row: "row \<in> set rows" "89 \<le> day_difference a u row"
      "row' = set_in_row row (Suc ?m) (VInt (day_difference a u row))"
      by auto
    show "difference_recorded a u ?m row'"
      unfolding row(3)
      by (rule difference_recorded_set_in_row [OF each [OF row(1)] row(2) am um])
  qed
  then show ?thesis
    using sheet by blast
qed

theorem calculate_difference_rows_witness:
  "calculate_difference
     [sample_header_dated,
      sample_row_dated ''P1'' (DateTime (ymd 2024 1 1) 0) (ymd 2024 5 1),
      sample_row_dated ''P2'' (DateTime (ymd 2024 1 1) 0) (ymd 2024 1 20),
      sample_row_dated ''P3'' (DateTime (ymd 2024 1 1) 43200000000) (ymd 2024 3 30)]
   = (None,
      [sample_header_dated @ [VStr ''Difference''],
       sample_row_dated ''P1'' (DateTime (ymd 2024 1 1) 0) (ymd 2024 5 1) @ [VInt 121],
       sample_row_dated ''P3'' (DateTime (ymd 2024 1 1) 43200000000) (ymd 2024 3 30) @ [VInt 89]])
   \<and> difference_recorded 5 2 6
        (sample_row_dated ''P1'' (DateTime (ymd 2024 1 1) 0) (ymd 2024 5 1) @ [VInt 121])
   \<and> difference_recorded 5 2 6
        (sample_row_dated ''P3'' (DateTime (ymd 2024 1 1) 43200000000) (ymd 2024 3 30) @ [VInt 89])"
proof -
  let ?rows = "[sample_row_dated ''P1'' (DateTime (ymd 2024 1 1) 0) (ymd 2024 5 1),
      sample_row_dated ''P2'' (DateTime (ymd 2024 1 1) 0) (ymd 2024 1 20),
      sample_row_dated ''P3'' (DateTime (ymd 2024 1 1) 43200000000) (ymd 2024 3 30)]"
  have c1: "index_of (VStr ''Udbetalingsdato'') (row_tuple (sample_header_dated # ?rows) 1) = Some 2"
    by code_simp
  have c2: "index_of (VStr Adresseaendringsdato) (row_tuple (sample_header_dated # ?rows) 1) = Some 5"
    by code_simp
  have c3: "\<forall>row\<in>set ?rows. dated_row 5 2 row"
    by code_simp
  have m: "max_column (sample_header_dated # ?rows) = 6"
    by code_simp
  have hp: "pad sample_header_dated 6 = sample_header_dated"
    by code_simp
  have left: "map (\<lambda>row. set_in_row row (Suc 6) (VInt (day_difference 5 2 row)))
                (filter (\<lambda>row. 89 \<le> day_difference 5 2 row) ?rows)
          = [sample_row_dated ''P1'' (DateTime (ymd 2024 1 1) 0) (ymd 2024 5 1) @ [VInt 121],
             sample_row_dated ''P3'' (DateTime (ymd 2024 1 1) 43200000000) (ymd 2024 3 30) @ [VInt 89]]"
    by code_simp
  show ?thesis
    using calculate_difference_rows [OF c1 c2 c3]
    unfolding m hp left by simp
qed

section \<open>Deleting rows while walking backwards\<close>

text \<open>
  Claim C7. For a sheet of any number of data rows and any set \<open>M\<close> of positions that
  the condition of the loop marks for deletion (the row at position \<open>i\<close>, counted from
  0, being judged at the visit \<open>length rows - 1 - i\<close>, that is, last row first), the
  rows \<^verbatim>\<open>read_excel_file\<close> leaves are exactly the rows at the positions outside \<open>M\<close>, in
  their original order, and the clock has been read once per row. The same holds of
  \<^verbatim>\<open>calculate_difference\<close> with the rows whose difference is below 89 as the marked set,
  the rows left carrying their difference.
\<close>

theorem reverse_deletion_complement:
  assumes "VStr ''CPR'' \<in> set (row_tuple (h # rows) 1)"
    and "VStr Beloeb \<in> set (row_tuple (h # rows) 1)"
    and "index_of (VStr ''Udbetalingsdato'') (row_tuple (h # rows) 1) = Some u"
    and "index_of (VStr ''Aftale type'') (row_tuple (h # rows) 1) = Some a"
    and "index_of (VStr ''RIM aftaletype'') (row_tuple (h # rows) 1) = Some r"
    and "\<forall>i<length rows.
           row_decision a r u (clock (length rows - 1 - i)) (rows ! i) = Inr (i \<in> M)"
    and "index_of (VStr ''Udbetalingsdato'') (row_tuple (h' # rows') 1) = Some u'"
    and "index_of (VStr Adresseaendringsdato) (row_tuple (h' # rows') 1) = Some a'"
    and "\<forall>i<length rows'. \<exists>d. row_days a' u' (rows' ! i) = Inr d \<and> (d < 89 \<longleftrightarrow> i \<in> M')"
  shows "read_excel_file clock (h # rows)
         = (None, pad h (max_column (h # rows)) # nths rows (- M), length rows)
       \<and> calculate_difference (h' # rows')
         = (None, (pad h' (max_column (h' # rows')) @ [VStr ''Difference''])
                  # map (\<lambda>row. set_in_row row (Suc (max_column (h' # rows')))
                                 (VInt (the_days a' u' row)))
                      (nths rows' (- M')))"
proof -
  have dec: "\<forall>row\<in>set rows. decidable_row a r u row"
  proof
    fix row assume "row \<in> set rows"
    then obtain i where i: "i < length rows" "rows ! i = row"
      by (auto simp: in_set_conv_nth)
    then show "decidable_row a r u row"
      using assms(6) row_decision_decidable by blast
  qed
  have "\<forall>i<length rows.
          row_decision a r u (clock (0 + (length rows - 1 - i))) (rows ! i) = Inr (i \<in> M)"
    using assms(6) by simp
  then have "rev (kept clock a r u 0 (rev rows)) = nths rows (- M)"
    by (rule kept_nths)
  then have first: "read_excel_file clock (h # rows)
         = (None, pad h (max_column (h # rows)) # nths rows (- M), length rows)"
    using read_excel_file_sweep [OF assms(1-5) dec, of clock] by simp
  have days: "\<forall>row\<in>set rows'. \<exists>d. row_days a' u' row = Inr d"
  proof
    fix row assume "row \<in> set rows'"
    then obtain i where i: "i < length rows'" "rows' ! i = row"
      by (auto simp: in_set_conv_nth)
    then show "\<exists>d. row_days a' u' row = Inr d"
      using assms(9) by blast
  qed
  have "\<forall>i<length rows'. (89 \<le> the_days a' u' (rows' ! i)) \<longleftrightarrow> i \<in> - M'"
  proof (intro allI impI)
    fix i assume "i < length rows'"
    then obtain d where "row_days a' u' (rows' ! i) = Inr d" "d < 89 \<longleftrightarrow> i \<in> M'"
      using assms(9) by blast
    then show "(89 \<le> the_days a' u' (rows' ! i)) \<longleftrightarrow> i \<in> - M'"
      by (auto simp: the_days_def)
  qed
  then have "filter (\<lambda>row. 89 \<le> the_days a' u' row) rows' = nths rows' (- M')"
    by (rule filter_nths)
  then have second: "calculate_difference (h' # rows')
         = (None, (pad h' (max_column (h' # rows')) @ [VStr ''Difference''])
                  # map (\<lambda>row. set_in_row row (Suc (max_column (h' # rows')))
                                 (VInt (the_days a' u' row)))
                      (nths rows' (- M')))"
    using calculate_difference_sweep [OF assms(7,8) days]
    by (simp add: annotated_filter [OF days])
  show ?thesis
    using first second by simp
qed

theorem reverse_deletion_complement_witness:
  "read_excel_file (\<lambda>k. DateTime (ymd 2024 6 1) 0)
     [sample_header,
      sample_row ''P1'' (DateTime (ymd 2024 1 1) 0) VNone VNone,
      sample_row ''P2'' (DateTime (ymd 2024 1 1) 0) (VStr ''X'') VNone,
      sample_row ''P3'' (DateTime (ymd 2024 1 2) 0) VNone VNone,
      sample_row ''P4'' (DateTime (ymd 2024 1 3) 0) VNone (VStr ''IN'')]
   = (None,
      [sample_header,
       sample_row ''P1'' (DateTime (ymd 2024 1 1) 0) VNone VNone,
       sample_row ''P3'' (DateTime (ymd 2024 1 2) 0) VNone VNone], 4)
   \<and> calculate_difference
     [sample_header_dated,
      sample_row_dated ''P1'' (DateTime (ymd 2024 1 1) 0) (ymd 2024 1 20),
      sample_row_dated ''P2'' (DateTime (ymd 2024 1 1) 0) (ymd 2024 5 1),
      sample_row_dated ''P3'' (DateTime (ymd 2024 1 1) 0) (ymd 2024 2 1)]
   = (None,
      [sample_header_dated @ [VStr ''Difference''],
       sample_row_dated ''P2'' (DateTime (ymd 2024 1 1) 0) (ymd 2024 5 1) @ [VInt 121]])"
proof -
  let ?clock = "\<lambda>k::nat. DateTime (ymd 2024 6 1) 0"
  let ?rows = "[sample_row ''P1'' (DateTime (ymd 2024 1 1) 0) VNone VNone,
      sample_row ''P2'' (DateTime (ymd 2024 1 1) 0) (VStr ''X'') VNone,
      sample_row ''P3'' (DateTime (ymd 2024 1 2) 0) VNone VNone,
      sample_row ''P4'' (DateTime (ymd 2024 1 3) 0) VNone (VStr ''IN'')]"
  let ?rows' = "[sample_row_dated ''P1'' (DateTime (ymd 2024 1 1) 0) (ymd 2024 1 20),
      sample_row_dated ''P2'' (DateTime (ymd 2024 1 1) 0) (ymd 2024 5 1),
      sample_row_dated ''P3'' (DateTime (ymd 2024 1 1) 0) (ymd 2024 2 1)]"
  have c1: "VStr ''CPR'' \<in> set (row_tuple (sample_header # ?rows) 1)"
    by code_simp
  have c2: "VStr Beloeb \<in> set (row_tuple (sample_header # ?rows) 1)"
    by code_simp
  have c3: "index_of (VStr ''Udbetalingsdato'') (row_tuple (sample_header # ?rows) 1) = Some 2"
    by code_simp
  have c4: "index_of (VStr ''Aftale type'') (row_tuple (sample_header # ?rows) 1) = Some 3"
    by code_simp
  have c5: "index_of (VStr ''RIM aftaletype'') (row_tuple (sample_header # ?rows) 1) = Some 4"
    by code_simp
  have p0: "row_decision 3 4 2 (?clock (length ?rows - 1 - 0)) (?rows ! 0) = Inr (0 \<in> {1, 3::nat})"
    by code_simp
  have p1: "row_decision 3 4 2 (?clock (length ?rows - 1 - 1)) (?rows ! 1) = Inr (1 \<in> {1, 3::nat})"
    by code_simp
  have p2: "row_decision 3 4 2 (?clock (length ?rows - 1 - 2)) (?rows ! 2) = Inr (2 \<in> {1, 3::nat})"
    by code_simp
  have p3: "row_decision 3 4 2 (?clock (length ?rows - 1 - 3)) (?rows ! 3) = Inr (3 \<in> {1, 3::nat})"
    by code_simp
  have c6: "\<forall>i<length ?rows.
      row_decision 3 4 2 (?clock (length ?rows - 1 - i)) (?rows ! i) = Inr (i \<in> {1, 3::nat})"
  proof (intro allI impI)
    fix i assume "i < length ?rows"
    then have "i = 0 \<or> i = 1 \<or> i = 2 \<or> i = 3"
      by auto
    then show "row_decision 3 4 2 (?clock (length ?rows - 1 - i)) (?rows ! i) = Inr (i \<in> {1, 3::nat})"
      using p0 p1 p2 p3 by (elim disjE) (simp_all only:)
  qed
  have c7: "index_of (VStr ''Udbetalingsdato'') (row_tuple (sample_header_dated # ?rows') 1) = Some 2"
    by code_simp
  have c8: "index_of (VStr Adresseaendringsdato) (row_tuple (sample_header_dated # ?rows') 1) = Some 5"
    by code_simp
  have q0: "row_days 5 2 (?rows' ! 0) = Inr 19 \<and> ((19::int) < 89 \<longleftrightarrow> 0 \<in> {0, 2::nat})"
    by code_simp
  have q1: "row_days 5 2 (?rows' ! 1) = Inr 121 \<and> ((121::int) < 89 \<longleftrightarrow> 1 \<in> {0, 2::nat})"
    by code_simp
  have q2: "row_days 5 2 (?rows' ! 2) = Inr 31 \<and> ((31::int) < 89 \<longleftrightarrow> 2 \<in> {0, 2::nat})"
    by code_simp
  have c9: "\<forall>i<length ?rows'. \<exists>d. row_days 5 2 (?rows' ! i) = Inr d \<and> (d < 89 \<longleftrightarrow> i \<in> {0, 2::nat})"
  proof (intro allI impI)
    fix i assume "i < length ?rows'"
    then have "i = 0 \<or> i = 1 \<or> i = 2"
      by auto
    then show "\<exists>d. row_days 5 2 (?rows' ! i) = Inr d \<and> (d < 89 \<longleftrightarrow> i \<in> {0, 2::nat})"
      using q0 q1 q2 by (elim disjE) blast+
  qed
  have r1: "nths ?rows (- {1, 3}) = [sample_row ''P1'' (DateTime (ymd 2024 1 1) 0) VNone VNone,
       sample_row ''P3'' (DateTime (ymd 2024 1 2) 0) VNone VNone]"
    by code_simp
  have r2: "map (\<lambda>row. set_in_row row (Suc (max_column (sample_header_dated # ?rows')))
                                 (VInt (the_days 5 2 row)))
                      (nths ?rows' (- {0, 2}))
            = [sample_row_dated ''P2'' (DateTime (ymd 2024 1 1) 0) (ymd 2024 5 1) @ [VInt 121]]"
    by code_simp
  have r3: "pad sample_header_dated (max_column (sample_header_dated # ?rows')) = sample_header_dated"
    by code_simp
  have hp: "pad sample_header (max_column (sample_header # ?rows)) = sample_header"
    by code_simp
  have len: "length ?rows = 4"
    by simp
  show ?thesis
    using reverse_deletion_complement [OF c1 c2 c3 c4 c5 c6 c7 c8 c9]
    unfolding r1 r2 r3 len hp .
qed

section \<open>The header row and the columns\<close>

text \<open>
  Claim C10. No step deletes or changes the header row: after \<^verbatim>\<open>read_excel_file\<close> every
  cell of row 1 reads as before; after \<^verbatim>\<open>get_address_changes\<close> and after
  \<^verbatim>\<open>calculate_difference\<close> every cell of row 1 reads as before, but for the one header
  cell the step appends behind the last column. This holds of every worksheet and also
  when the step ends in an exception.
\<close>

theorem header_row_kept:
  "cell_value (fst (snd (read_excel_file clock ws))) 1 c = cell_value ws 1 c
   \<and> cell_value (snd (get_address_changes db ws)) 1 c
       = (if c = max_column ws + 1 then VStr Adresseaendringsdato else cell_value ws 1 c)
   \<and> cell_value (snd (calculate_difference ws)) 1 c
       = (if c = max_column ws + 1 then VStr ''Difference'' else cell_value ws 1 c)"
  using read_excel_file_header [of clock ws c]
    get_address_changes_frame [of 1 c ws db]
    calculate_difference_header [of ws c]
  by simp

text \<open>
  Claim C9. \<^verbatim>\<open>get_address_changes\<close> and then \<^verbatim>\<open>calculate_difference\<close> widen the sheet by
  exactly one column each; the first leaves every cell of the columns that were there
  as it was; row 1 afterwards reads the original header cells in their places, then
  \<^verbatim>\<open>Adresseaendringsdato\<close> in the first new column and \<^verbatim>\<open>Difference\<close> in the second; and
  every row that \<^verbatim>\<open>calculate_difference\<close> leaves, when it completes, agrees on all earlier
  columns with a row it was given.
\<close>

theorem derived_columns_appended:
  assumes "get_address_changes db ws = (e1, ws1)"
    and "calculate_difference ws1 = (e2, ws2)"
  shows "max_column ws1 = max_column ws + 1
       \<and> max_column ws2 = max_column ws + 2
       \<and> (\<forall>r c. c \<le> max_column ws \<longrightarrow> cell_value ws1 r c = cell_value ws r c)
       \<and> (\<forall>c. cell_value ws2 1 c
               = (if c = max_column ws + 1 then VStr Adresseaendringsdato
                  else if c = max_column ws + 2 then VStr ''Difference''
                  else cell_value ws 1 c))
       \<and> (e2 = None \<longrightarrow>
            (\<forall>row'\<in>set (tl ws2). \<exists>row\<in>set (tl ws1).
               \<forall>i\<le>max_column ws. field row' i = field row i))"
proof -
  let ?m = "max_column ws"
  have ws1: "ws1 = snd (get_address_changes db ws)" and ws2: "ws2 = snd (calculate_difference ws1)"
    using assms by simp_all
  have m1: "max_column ws1 = ?m + 1"
    unfolding ws1 by (rule get_address_changes_max_column)
  have m2: "max_column ws2 = ?m + 2"
    unfolding ws2 using calculate_difference_max_column [of ws1] m1 by simp
  have frame: "\<forall>r c. c \<le> ?m \<longrightarrow> cell_value ws1 r c = cell_value ws r c"
  proof (intro allI impI)
    fix r c assume "c \<le> ?m"
    then show "cell_value ws1 r c = cell_value ws r c"
      unfolding ws1 using get_address_changes_frame [of r c ws db] by simp
  qed
  have header: "\<forall>c. cell_value ws2 1 c
               = (if c = ?m + 1 then VStr Adresseaendringsdato
                  else if c = ?m + 2 then VStr ''Difference''
                  else cell_value ws 1 c)"
  proof
    fix c
    have A: "cell_value ws2 1 c
          = (if c = max_column ws1 + 1 then VStr ''Difference'' else cell_value ws1 1 c)"
      unfolding ws2 by (rule calculate_difference_header)
    have B: "cell_value ws1 1 c
          = (if c = ?m + 1 then VStr Adresseaendringsdato else cell_value ws 1 c)"
      unfolding ws1 using get_address_changes_frame [of 1 c ws db] by simp
    show "cell_value ws2 1 c
               = (if c = ?m + 1 then VStr Adresseaendringsdato
                  else if c = ?m + 2 then VStr ''Difference''
                  else cell_value ws 1 c)"
      unfolding A B m1 by auto
  qed
  have same: "\<forall>row'\<in>set (tl ws2). \<exists>row\<in>set (tl ws1).
               \<forall>i\<le>?m. field row' i = field row i" if "e2 = None"
  proof -
    have fin: "calculate_difference ws1 = (None, ws2)"
      using assms(2) that by simp
    obtain h rows u a where hr: "ws1 = h # rows"
      and u: "index_of (VStr ''Udbetalingsdato'') (row_tuple (h # rows) 1) = Some u"
      and a: "index_of (VStr Adresseaendringsdato) (row_tuple (h # rows) 1) = Some a"
      using calculate_difference_completes [OF fin] by blast
    have "ws2 = (pad h (max_column (h # rows)) @ [VStr ''Difference''])
               # map (\<lambda>row. set_in_row row (Suc (max_column (h # rows)))
                              (VInt (the_days a u row)))
                   (filter (\<lambda>row. 89 \<le> the_days a u row) rows)"
      by (rule calculate_difference_result(2) [OF u a fin [unfolded hr]])
    then have tl2: "tl ws2 = map (\<lambda>row. set_in_row row (Suc (?m + 1)) (VInt (the_days a u row)))
                   (filter (\<lambda>row. 89 \<le> the_days a u row) rows)"
      using m1 hr by simp
    show ?thesis
    proof
      fix row' assume "row' \<in> set (tl ws2)"
      then obtain row where row: "row \<in> set rows"
        "row' = set_in_row row (Suc (?m + 1)) (VInt (the_days a u row))"
        unfolding tl2 by auto
      have "\<forall>i\<le>?m. field row' i = field row i"
        unfolding row(2) by (simp add: field_set_in_row)
      then show "\<exists>row\<in>set (tl ws1). \<forall>i\<le>?m. field row' i = field row i"
        using row(1) hr by auto
    qed
  qed
  show ?thesis
    using m1 m2 frame header same by blast
qed

theorem derived_columns_appended_witness:
  "get_address_changes sample_database
     [sample_header,
      sample_row ''P1'' (DateTime (ymd 2024 1 1) 0) VNone VNone,
      sample_row ''P2'' (DateTime (ymd 2024 1 1) 0) VNone VNone]
   = (None,
      [sample_header_dated,
       sample_row_dated ''P1'' (DateTime (ymd 2024 1 1) 0) (ymd 2024 5 1),
       sample_row_dated ''P2'' (DateTime (ymd 2024 1 1) 0) (ymd 2024 1 20)])
   \<and> calculate_difference
      [sample_header_dated,
       sample_row_dated ''P1'' (DateTime (ymd 2024 1 1) 0) (ymd 2024 5 1),
       sample_row_dated ''P2'' (DateTime (ymd 2024 1 1) 0) (ymd 2024 1 20)]
   = (None,
      [sample_header_dated @ [VStr ''Difference''],
       sample_row_dated ''P1'' (DateTime (ymd 2024 1 1) 0) (ymd 2024 5 1) @ [VInt 121]])
   \<and> max_column
      [sample_header_dated,
       sample_row_dated ''P1'' (DateTime (ymd 2024 1 1) 0) (ymd 2024 5 1),
       sample_row_dated ''P2'' (DateTime (ymd 2024 1 1) 0) (ymd 2024 1 20)] = 6
   \<and> max_column
      [sample_header_dated @ [VStr ''Difference''],
       sample_row_dated ''P1'' (DateTime (ymd 2024 1 1) 0) (ymd 2024 5 1) @ [VInt 121]] = 7
   \<and> cell_value
      [sample_header_dated @ [VStr ''Difference''],
       sample_row_dated ''P1'' (DateTime (ymd 2024 1 1) 0) (ymd 2024 5 1) @ [VInt 121]] 1 6
     = VStr Adresseaendringsdato
   \<and> cell_value
      [sample_header_dated @ [VStr ''Difference''],
       sample_row_dated ''P1'' (DateTime (ymd 2024 1 1) 0) (ymd 2024 5 1) @ [VInt 121]] 1 7
     = VStr ''Difference''"
proof -
  let ?ws = "[sample_header,
      sample_row ''P1'' (DateTime (ymd 2024 1 1) 0) VNone VNone,
      sample_row ''P2'' (DateTime (ymd 2024 1 1) 0) VNone VNone]"
  let ?ws1 = "[sample_header_dated,
       sample_row_dated ''P1'' (DateTime (ymd 2024 1 1) 0) (ymd 2024 5 1),
       sample_row_dated ''P2'' (DateTime (ymd 2024 1 1) 0) (ymd 2024 1 20)]"
  let ?ws2 = "[sample_header_dated @ [VStr ''Difference''],
       sample_row_dated ''P1'' (DateTime (ymd 2024 1 1) 0) (ymd 2024 5 1) @ [VInt 121]]"
  have h1: "get_address_changes sample_database ?ws = (None, ?ws1)"
    by code_simp
  have h2: "calculate_difference ?ws1 = (None, ?ws2)"
    by code_simp
  have m: "max_column ?ws = 5"
    by code_simp
  have "max_column ?ws1 = 5 + 1" "max_column ?ws2 = 5 + 2"
    "cell_value ?ws2 1 (5 + 1) = VStr Adresseaendringsdato"
    "cell_value ?ws2 1 (5 + 2) = VStr ''Difference''"
    using derived_columns_appended [OF h1 h2] unfolding m by simp_all
  then show ?thesis
    using h1 h2 by simp
qed

section \<open>Rows without an address change date\<close>

text \<open>
  Claim C4. \<^verbatim>\<open>calculate_difference\<close> has no test for an unset address change date:
  the subtraction \<^verbatim>\<open>None - date\<close> raises \<^verbatim>\<open>TypeError\<close>. A run over one eligible row whose
  person has no address history (the driver reporting row count 0, so that
  \<^verbatim>\<open>get_address_changes\<close> leaves the cell unset) ends in that exception, the row still
  in the sheet.
\<close>

theorem process_unset_address_change_raises:
  "process (\<lambda>k. DateTime (ymd 2024 6 1) 0) (\<lambda>cpr. \<lparr>rowcount = 0, fetchall = []\<rparr>)
     [sample_header, sample_row ''P1'' (DateTime (ymd 2024 1 1) 0) VNone VNone]
   = (Some TypeError,
      [sample_header_dated @ [VStr ''Difference''],
       sample_row ''P1'' (DateTime (ymd 2024 1 1) 0) VNone VNone])"
  by code_simp

end
